theory Spec2Isabelle
  imports Main "HOL-Library.List_Lexorder" "HOL-Library.Product_Lexorder"
begin

section \<open>Time windows\<close>

text \<open>
  A time window is the Python tuple \<open>(start, end)\<close> of minutes of the day. Python
  integers are unbounded, so both components are \<open>int\<close>. Tuples compare
  lexicographically in Python, which is the order of \<open>Product_Lexorder\<close>.
\<close>

type_synonym segment = "int \<times> int"

text \<open>
  \<^verbatim>\<open>has_overlap(ranges, new_range)\<close>:
  \<^verbatim>\<open>any(max(s, ns) < min(e, ne) for s, e in ranges)\<close>.
\<close>

definition overlaps :: "segment \<Rightarrow> segment \<Rightarrow> bool" where
  "overlaps a b = (max (fst a) (fst b) < min (snd a) (snd b))"

definition has_overlap :: "segment list \<Rightarrow> segment \<Rightarrow> bool" where
  "has_overlap ranges new_range = list_ex (\<lambda>r. overlaps r new_range) ranges"

text \<open>
  \<^verbatim>\<open>find_active_segment\<close> reads the clock (\<^verbatim>\<open>now_minutes()\<close>); the reading is the
  argument \<open>m\<close>. The loop returns the first window of the list with
  \<^verbatim>\<open>seg[0] <= m < seg[1]\<close>.
\<close>

fun find_active_segment :: "segment list \<Rightarrow> int \<Rightarrow> segment option" where
  "find_active_segment [] m = None"
| "find_active_segment (seg # rest) m =
     (if fst seg \<le> m \<and> m < snd seg then Some seg else find_active_segment rest m)"

section \<open>Text of the order file\<close>

text \<open>
  A Python \<^verbatim>\<open>str\<close> is a sequence of Unicode code points; it is modelled as a list of
  natural numbers, the code points. Lists of code points are ordered
  lexicographically (\<open>List_Lexorder\<close>), as Python orders strings.
\<close>

type_synonym pystr = "nat list"

definition py :: "string \<Rightarrow> pystr" where
  "py s = map of_char s"

text \<open>The line boundaries of \<^verbatim>\<open>str.splitlines\<close> and the whitespace of \<^verbatim>\<open>str.strip\<close>.\<close>

definition is_linebreak :: "nat \<Rightarrow> bool" where
  "is_linebreak c = (c \<in> set [10, 11, 12, 13, 28, 29, 30, 133, 8232, 8233])"

definition is_space :: "nat \<Rightarrow> bool" where
  "is_space c = ((9 \<le> c \<and> c \<le> 13) \<or> (28 \<le> c \<and> c \<le> 32) \<or> c = 133 \<or> c = 160
      \<or> c = 5760 \<or> (8192 \<le> c \<and> c \<le> 8202) \<or> c = 8232 \<or> c = 8233 \<or> c = 8239
      \<or> c = 8287 \<or> c = 12288)"

definition strip :: "pystr \<Rightarrow> pystr" where
  "strip s = rev (dropWhile is_space (rev (dropWhile is_space s)))"

text \<open>
  \<^verbatim>\<open>str.splitlines()\<close>: the text is cut at every line boundary, a carriage return
  followed by a line feed is one boundary, and a text that ends with a boundary has no
  empty last line. \<open>cur\<close> is the line read so far.
\<close>

fun splitlines_from :: "pystr \<Rightarrow> pystr \<Rightarrow> pystr list" where
  "splitlines_from cur [] = (if cur = [] then [] else [cur])"
| "splitlines_from cur (c # cs) =
     (if c = 13 then
        (case cs of
           [] \<Rightarrow> cur # splitlines_from [] cs
         | d # ds \<Rightarrow> if d = 10 then cur # splitlines_from [] ds
                    else cur # splitlines_from [] cs)
      else if is_linebreak c then cur # splitlines_from [] cs
      else splitlines_from (cur @ [c]) cs)"

definition splitlines :: "pystr \<Rightarrow> pystr list" where
  "splitlines t = splitlines_from [] t"

text \<open>\<^verbatim>\<open>"\n".join(names)\<close>.\<close>

fun join_lines :: "pystr list \<Rightarrow> pystr" where
  "join_lines [] = []"
| "join_lines [n] = n"
| "join_lines (n # ns) = n @ [10] @ join_lines ns"

text \<open>
  The text written by \<^verbatim>\<open>write_order\<close>:
  \<^verbatim>\<open>"\n".join(names) + ("\n" if names else "")\<close>, and the names read back by
  \<^verbatim>\<open>load_ordered_files\<close>:
  \<^verbatim>\<open>[line.strip() for line in text.splitlines() if line.strip()]\<close>.
  The file is written and read in text mode; the newline translation of text mode
  only turns one line boundary into another one or adds blank lines, which the
  reader skips, so the text read is taken to be the text written.
\<close>

definition order_text :: "pystr list \<Rightarrow> pystr" where
  "order_text names = join_lines names @ (if names = [] then [] else [10])"

definition read_names :: "pystr \<Rightarrow> pystr list" where
  "read_names t = filter (\<lambda>l. l \<noteq> []) (map strip (splitlines t))"

section \<open>Storage locations and the order record\<close>

text \<open>
  The directory of a window (\<^verbatim>\<open>segment_dir\<close>) holds files and the order file
  \<^verbatim>\<open>order.txt\<close>. \<open>entries\<close> lists the names of its other entries, files and
  directories, in the order the operating system lists them; \<open>subdirs\<close> lists the
  names among them that are directories; \<open>order_txt\<close> is the text of the order file,
  when there is one. The file system maps a window to its directory, when that
  exists: \<^verbatim>\<open>segment_folder\<close> prints start and end of the window, each as hours and
  two-digit minutes, so that different windows have different directories.
\<close>

record dir =
  entries :: "pystr list"
  subdirs :: "pystr list"
  order_txt :: "pystr option"

type_synonym filesys = "segment \<Rightarrow> dir option"

text \<open>A \<^verbatim>\<open>Path\<close> inside a window's directory: the window and the file name.\<close>

type_synonym path = "segment \<times> pystr"

definition empty_dir :: dir where
  "empty_dir = \<lparr>entries = [], subdirs = [], order_txt = None\<rparr>"

definition endswith :: "pystr \<Rightarrow> pystr \<Rightarrow> bool" where
  "endswith s suffix = (length suffix \<le> length s \<and> drop (length s - length suffix) s = suffix)"

text \<open>
  \<^verbatim>\<open>d.glob("*.mp4")\<close> on a case-sensitive file system: the entries whose name ends
  in \<open>.mp4\<close>. The keys of the dictionary \<^verbatim>\<open>{p.name: p for p in d.glob("*.mp4")}\<close>
  are these names, each once.
\<close>

definition is_mp4 :: "pystr \<Rightarrow> bool" where
  "is_mp4 n = endswith n (py ''.mp4'')"

definition glob_mp4 :: "dir \<Rightarrow> pystr list" where
  "glob_mp4 d = remdups (filter is_mp4 (entries d))"

text \<open>
  The first loop of \<^verbatim>\<open>load_ordered_files\<close>:
  \<^verbatim>\<open>for n in names: if n in files: ordered.append(files.pop(n))\<close>.
  The result is the names appended and the keys left in the dictionary.
\<close>

fun take_ordered :: "pystr list \<Rightarrow> pystr list \<Rightarrow> pystr list \<times> pystr list" where
  "take_ordered [] files = ([], files)"
| "take_ordered (n # ns) files =
     (if n \<in> set files
      then (case take_ordered ns (removeAll n files) of (ordered, rest) \<Rightarrow> (n # ordered, rest))
      else take_ordered ns files)"

text \<open>
  The names of the playlist that \<^verbatim>\<open>load_ordered_files\<close> computes from a
  directory: the recorded names that are keys of \<open>files\<close>, then
  \<^verbatim>\<open>sorted(files.keys())\<close> of what is left.
\<close>

definition ordered_names :: "dir \<Rightarrow> pystr list" where
  "ordered_names d =
     (let files = glob_mp4 d;
          names = (case order_txt d of None \<Rightarrow> [] | Some t \<Rightarrow> read_names t)
      in case take_ordered names files of (ordered, rest) \<Rightarrow> ordered @ sort rest)"

text \<open>
  Reading a directory that does not exist finds nothing: \<^verbatim>\<open>glob\<close> yields no
  path and \<^verbatim>\<open>order_file.exists()\<close> is false.
\<close>

definition read_dir :: "filesys \<Rightarrow> segment \<Rightarrow> dir" where
  "read_dir f seg = (case f seg of None \<Rightarrow> empty_dir | Some d \<Rightarrow> d)"

text \<open>\<^verbatim>\<open>d.mkdir(exist_ok=True)\<close>: a missing directory is created empty.\<close>

definition mkdir :: "filesys \<Rightarrow> segment \<Rightarrow> filesys" where
  "mkdir f seg = (case f seg of None \<Rightarrow> f(seg \<mapsto> empty_dir) | Some d \<Rightarrow> f)"

text \<open>
  The exceptions of \<^verbatim>\<open>write_text(text, encoding="utf-8")\<close>. A text with a surrogate
  code point cannot be encoded; the name of a file that the operating system gives
  in bytes that are no UTF-8 has such code points.
\<close>

datatype io_error = FileNotFoundError | UnicodeEncodeError

definition is_surrogate :: "nat \<Rightarrow> bool" where
  "is_surrogate c = (55296 \<le> c \<and> c \<le> 57343)"

definition encodable :: "pystr \<Rightarrow> bool" where
  "encodable s = (\<not> list_ex is_surrogate s)"

text \<open>
  \<^verbatim>\<open>write_order(seg, names)\<close> writes the order file of the window's directory and
  returns the exception raised, if any, with the file system it leaves. In a
  directory that does not exist \<^verbatim>\<open>write_text\<close> raises and nothing is written. A
  text that cannot be encoded raises after the file was opened for writing, which
  leaves it empty.
\<close>

definition write_order :: "filesys \<Rightarrow> segment \<Rightarrow> pystr list \<Rightarrow> io_error option \<times> filesys" where
  "write_order f seg names =
     (case f seg of
        None \<Rightarrow> (Some FileNotFoundError, f)
      | Some d \<Rightarrow>
          if encodable (order_text names)
          then (None, f(seg \<mapsto> d\<lparr>order_txt := Some (order_text names)\<rparr>))
          else (Some UnicodeEncodeError, f(seg \<mapsto> d\<lparr>order_txt := Some []\<rparr>)))"

text \<open>
  \<^verbatim>\<open>load_ordered_files(seg)\<close> creates the directory, rewrites the order file and
  returns the ordered paths; when the writing raises, it returns no list.
\<close>

definition load_ordered_files :: "filesys \<Rightarrow> segment \<Rightarrow> (io_error + path list) \<times> filesys" where
  "load_ordered_files f seg =
     (let f1 = mkdir f seg; ordered = ordered_names (read_dir f1 seg)
      in case write_order f1 seg ordered of
           (None, f2) \<Rightarrow> (Inr (map (\<lambda>n. (seg, n)) ordered), f2)
         | (Some err, f2) \<Rightarrow> (Inl err, f2))"

text \<open>
  \<^verbatim>\<open>any_segment_has_video\<close>: some window's directory has an entry matching
  \<^verbatim>\<open>*.mp4\<close>.
\<close>

definition dir_has_mp4 :: "filesys \<Rightarrow> segment \<Rightarrow> bool" where
  "dir_has_mp4 f seg = list_ex is_mp4 (entries (read_dir f seg))"

definition any_segment_has_video :: "segment list \<Rightarrow> filesys \<Rightarrow> bool" where
  "any_segment_has_video ranges f = list_ex (dir_has_mp4 f) ranges"

section \<open>The player and the state of the main window\<close>

datatype playback_state = StoppedState | PlayingState | PausedState

text \<open>
  The media player as the program commands it: the source set last, the position set
  last (\<^verbatim>\<open>setSource\<close> and \<^verbatim>\<open>stop\<close> put it back to 0) and the playback state.
\<close>

record player =
  source :: "path option"
  position :: int
  playback :: playback_state

definition player_set_source :: "player \<Rightarrow> path \<Rightarrow> player" where
  "player_set_source p src = p\<lparr>source := Some src, position := 0, playback := StoppedState\<rparr>"

definition player_play :: "player \<Rightarrow> player" where
  "player_play p = p\<lparr>playback := PlayingState\<rparr>"

definition player_stop :: "player \<Rightarrow> player" where
  "player_stop p = p\<lparr>position := 0, playback := StoppedState\<rparr>"

definition player_set_position :: "player \<Rightarrow> int \<Rightarrow> player" where
  "player_set_position p pos = p\<lparr>position := pos\<rparr>"

text \<open>
  The fields of \<^verbatim>\<open>MainWindow\<close> that scheduling and playback use. \<open>clock_timer\<close>
  says whether the timer is running, \<open>graceful_switch\<close> is the state of the check box,
  \<open>ondemand_window\<close> says whether an on-demand window is held, \<open>fs\<close> is the
  directory tree under \<^verbatim>\<open>segments\<close>. The snapshot \<open>interrupt_state\<close> is the tuple
  \<^verbatim>\<open>(segment, playlist, index, position_ms, waiting_next_segment)\<close>.
\<close>

type_synonym snapshot = "segment option \<times> path list \<times> int \<times> int \<times> segment option"

record state =
  time_ranges :: "segment list"
  running :: bool
  current_segment :: "segment option"
  current_playlist :: "path list"
  current_index :: int
  waiting_next_segment :: "segment option"
  in_interrupt :: bool
  interrupt_state :: "snapshot option"
  ondemand_window :: bool
  main_player :: player
  clock_timer :: bool
  graceful_switch :: bool
  fullscreen :: bool
  fs :: filesys

text \<open>
  \<^verbatim>\<open>xs[i]\<close> in Python: a negative index counts from the end, an index out of range
  raises \<^verbatim>\<open>IndexError\<close> (\<open>None\<close>).
\<close>

definition py_index :: "'a list \<Rightarrow> int \<Rightarrow> 'a option" where
  "py_index xs i =
     (if 0 \<le> i \<and> i < int (length xs) then Some (xs ! nat i)
      else if - int (length xs) \<le> i \<and> i < 0 then Some (xs ! nat (int (length xs) + i))
      else None)"

text \<open>
  \<^verbatim>\<open>play_current\<close>. When the index is out of range the exception leaves the handler
  before the player is touched; the handlers below call \<^verbatim>\<open>play_current\<close> last.
\<close>

definition play_current :: "state \<Rightarrow> state" where
  "play_current st =
     (if current_playlist st = [] then st
      else case py_index (current_playlist st) (current_index st) of
             None \<Rightarrow> st
           | Some p \<Rightarrow> st\<lparr>main_player := player_play (player_set_source (main_player st) p)\<rparr>)"

text \<open>
  \<^verbatim>\<open>start_segment\<close>. When \<^verbatim>\<open>load_ordered_files\<close> raises, the handler ends there: the
  window and the cleared pending window are set, playlist and index are not.
\<close>

definition start_segment :: "state \<Rightarrow> segment \<Rightarrow> state" where
  "start_segment st seg =
     (let st0 = st\<lparr>current_segment := Some seg, waiting_next_segment := None\<rparr>
      in case load_ordered_files (fs st) seg of
           (Inl err, f) \<Rightarrow> st0\<lparr>fs := f\<rparr>
         | (Inr plist, f) \<Rightarrow>
             (let st1 = st0\<lparr>current_playlist := plist, current_index := 0, fs := f\<rparr>
              in if plist = [] then st1 else play_current (st1\<lparr>fullscreen := True\<rparr>)))"

text \<open>\<^verbatim>\<open>check_real_time\<close>, the handler of the timer; \<open>now\<close> is the clock reading.\<close>

definition check_real_time :: "state \<Rightarrow> int \<Rightarrow> state" where
  "check_real_time st now =
     (if \<not> running st \<or> in_interrupt st then st
      else case find_active_segment (time_ranges st) now of
             None \<Rightarrow> st
           | Some active \<Rightarrow>
               if current_segment st \<noteq> Some active then
                 (if current_segment st \<noteq> None \<and> graceful_switch st
                  then st\<lparr>waiting_next_segment := Some active\<rparr>
                  else start_segment st active)
               else st)"

datatype media_status = EndOfMedia | OtherStatus

definition on_media_status :: "state \<Rightarrow> media_status \<Rightarrow> state" where
  "on_media_status st status =
     (if status \<noteq> EndOfMedia then st
      else if \<not> running st \<or> in_interrupt st then st
      else case waiting_next_segment st of
             Some w \<Rightarrow> start_segment st w
           | None \<Rightarrow>
               if current_playlist st \<noteq> [] then
                 play_current (st\<lparr>current_index :=
                   (current_index st + 1) mod int (length (current_playlist st))\<rparr>)
               else st)"

section \<open>Commands of the user\<close>

text \<open>The message boxes that a rejected command shows.\<close>

datatype message = IllegalTime | TimeConflict | NoSegments | NoVideos | SelectSegmentFirst

definition reset_playback :: "state \<Rightarrow> state" where
  "reset_playback st = st\<lparr>current_segment := None, current_playlist := [],
     current_index := 0, waiting_next_segment := None\<rparr>"

text \<open>
  \<^verbatim>\<open>selected_segment\<close>; \<open>idx\<close> is the current index of the combo box of windows.
\<close>

definition selected_segment :: "state \<Rightarrow> int \<Rightarrow> segment option" where
  "selected_segment st idx =
     (if idx < 0 \<or> idx \<ge> int (length (time_ranges st)) then None
      else Some (time_ranges st ! nat idx))"

text \<open>
  \<^verbatim>\<open>refresh_playlist_view\<close> fills the list widget from \<^verbatim>\<open>load_ordered_files\<close>; what
  it leaves in the state is the rewritten order file.
\<close>

definition refresh_playlist_view :: "state \<Rightarrow> int \<Rightarrow> state" where
  "refresh_playlist_view st idx =
     (case selected_segment st idx of
        None \<Rightarrow> st
      | Some seg \<Rightarrow> st\<lparr>fs := snd (load_ordered_files (fs st) seg)\<rparr>)"

text \<open>
  \<^verbatim>\<open>refresh_segments\<close> clears the combo box of windows and fills it again. The box
  signals each change of its current index to \<^verbatim>\<open>refresh_playlist_view\<close>, and the
  first item added becomes the current one: the playlist of the first window is read.
\<close>

definition refresh_segments :: "state \<Rightarrow> state" where
  "refresh_segments st = refresh_playlist_view st 0"

text \<open>
  \<^verbatim>\<open>add_segment\<close>; \<open>s\<close> and \<open>e\<close> are the minutes read from the two time editors.
  On success the window is appended, the list sorted, the directory created
  (\<^verbatim>\<open>mkdir(parents=True, exist_ok=True)\<close>) and an empty order written.
\<close>

definition add_segment :: "state \<Rightarrow> int \<Rightarrow> int \<Rightarrow> message option \<times> state" where
  "add_segment st s e =
     (if e < s then (Some IllegalTime, st)
      else if has_overlap (time_ranges st) (s, e) then (Some TimeConflict, st)
      else (None, refresh_segments
              (st\<lparr>time_ranges := sort (time_ranges st @ [(s, e)]),
                  fs := snd (write_order (mkdir (fs st) (s, e)) (s, e) [])\<rparr>)))"

definition delete_segment :: "state \<Rightarrow> int \<Rightarrow> state" where
  "delete_segment st idx =
     (case selected_segment st idx of
        None \<Rightarrow> st
      | Some seg \<Rightarrow>
          (let st1 = (if current_segment st = Some seg
                      then reset_playback (st\<lparr>main_player := player_stop (main_player st)\<rparr>)
                      else st)
           in refresh_segments
                (st1\<lparr>time_ranges := remove1 seg (time_ranges st1),
                     fs := (fs st1)(seg := None)\<rparr>)))"

text \<open>
  \<^verbatim>\<open>save_ui_order_for_selected_segment\<close>; \<open>names\<close> are the rows of the list widget.
\<close>

definition save_ui_order_for_selected_segment :: "state \<Rightarrow> int \<Rightarrow> pystr list \<Rightarrow> state" where
  "save_ui_order_for_selected_segment st idx names =
     (case selected_segment st idx of
        None \<Rightarrow> st
      | Some seg \<Rightarrow> st\<lparr>fs := snd (write_order (fs st) seg names)\<rparr>)"

text \<open>
  \<^verbatim>\<open>add_video\<close>; \<open>srcs\<close> are the files chosen in the dialog, each with its name
  and its text. The loop copies every file whose name is not in the directory yet:
  \<^verbatim>\<open>if dst.exists(): continue\<close>, \<^verbatim>\<open>shutil.copy(src, dst)\<close>. No extension is
  tested. A file named \<^verbatim>\<open>order.txt\<close> becomes the order file.
\<close>

definition ORDER_FILE :: pystr where
  "ORDER_FILE = py ''order.txt''"

definition copy_in :: "pystr \<times> pystr \<Rightarrow> dir \<Rightarrow> dir" where
  "copy_in src d =
     (if fst src = ORDER_FILE
      then (if order_txt d = None then d\<lparr>order_txt := Some (snd src)\<rparr> else d)
      else if fst src \<in> set (entries d) then d
      else d\<lparr>entries := entries d @ [fst src]\<rparr>)"

text \<open>
  When the directory is missing the first copy raises and the handler ends with
  nothing changed. When \<^verbatim>\<open>load_ordered_files\<close> raises, the handler ends before
  \<^verbatim>\<open>refresh_playlist_view\<close>.
\<close>

definition add_video :: "state \<Rightarrow> int \<Rightarrow> (pystr \<times> pystr) list \<Rightarrow> message option \<times> state" where
  "add_video st idx srcs =
     (case selected_segment st idx of
        None \<Rightarrow> (Some SelectSegmentFirst, st)
      | Some seg \<Rightarrow>
          if srcs = [] then (None, st)
          else (case fs st seg of
                  None \<Rightarrow> (None, st)
                | Some d \<Rightarrow>
                    (let f1 = (fs st)(seg \<mapsto> fold copy_in srcs d)
                     in case load_ordered_files f1 seg of
                          (Inl err, f2) \<Rightarrow> (None, st\<lparr>fs := f2\<rparr>)
                        | (Inr plist, f2) \<Rightarrow>
                            (None, refresh_playlist_view (st\<lparr>fs := f2\<rparr>) idx))))"

text \<open>
  \<^verbatim>\<open>delete_video\<close>; \<open>names\<close> are the rows of the list widget and \<open>r\<close> its current
  row. The entry of that row is removed when it is there and is a file
  (\<^verbatim>\<open>fp.exists() and fp.is_file()\<close>), the row is taken out and the remaining rows are
  written as the order.
\<close>

definition delete_video :: "state \<Rightarrow> int \<Rightarrow> pystr list \<Rightarrow> int \<Rightarrow> state" where
  "delete_video st idx names r =
     (case selected_segment st idx of
        None \<Rightarrow> st
      | Some seg \<Rightarrow>
          if r < 0 \<or> r \<ge> int (length names) then st
          else (let name = names ! nat r;
                    f1 = (case fs st seg of
                            None \<Rightarrow> fs st
                          | Some d \<Rightarrow>
                              if name \<in> set (subdirs d) then fs st
                              else (fs st)(seg \<mapsto> d\<lparr>entries := removeAll name (entries d)\<rparr>))
                in st\<lparr>fs := snd (write_order f1 seg
                                   (take (nat r) names @ drop (Suc (nat r)) names))\<rparr>))"

text \<open>
  \<^verbatim>\<open>toggle_pause_dispatch\<close>; \<open>visible\<close> says whether the on-demand window is shown,
  which then takes the key.
\<close>

definition toggle_main_pause :: "state \<Rightarrow> state" where
  "toggle_main_pause st =
     (if playback (main_player st) = PlayingState
      then st\<lparr>main_player := (main_player st)\<lparr>playback := PausedState\<rparr>\<rparr>
      else st\<lparr>main_player := player_play (main_player st)\<rparr>)"

definition toggle_pause_dispatch :: "state \<Rightarrow> bool \<Rightarrow> state" where
  "toggle_pause_dispatch st visible =
     (if ondemand_window st \<and> visible then st else toggle_main_pause st)"

text \<open>
  \<^verbatim>\<open>enter_fullscreen\<close>, which the full-screen button calls, and \<^verbatim>\<open>keyPressEvent\<close> for
  the Escape key, which calls \<^verbatim>\<open>exit_fullscreen\<close> when the window is full screen.
  Full screen hides the panel with the buttons.
\<close>

definition enter_fullscreen :: "state \<Rightarrow> state" where
  "enter_fullscreen st = st\<lparr>fullscreen := True\<rparr>"

definition exit_fullscreen :: "state \<Rightarrow> state" where
  "exit_fullscreen st = st\<lparr>fullscreen := False\<rparr>"

definition escape_key :: "state \<Rightarrow> state" where
  "escape_key st = (if fullscreen st then exit_fullscreen st else st)"

text \<open>
  \<^verbatim>\<open>toggle_run\<close>; \<open>now\<close> is the clock reading of the \<^verbatim>\<open>check_real_time\<close> call made
  when the run starts.
\<close>

definition toggle_run :: "state \<Rightarrow> int \<Rightarrow> message option \<times> state" where
  "toggle_run st now =
     (if \<not> running st \<and> time_ranges st = [] then (Some NoSegments, st)
      else if \<not> running st \<and> \<not> any_segment_has_video (time_ranges st) (fs st)
      then (Some NoVideos, st)
      else if \<not> running st
      then (None, check_real_time (st\<lparr>running := True, clock_timer := True\<rparr>) now)
      else (None, reset_playback (st\<lparr>running := False, clock_timer := False,
                     main_player := player_stop (main_player st)\<rparr>)))"

section \<open>Interrupt and resume\<close>

text \<open>
  \<^verbatim>\<open>start_on_demand\<close>; \<open>pos\<close> is what \<^verbatim>\<open>self.player.position()\<close> returns. The
  on-demand window has a player and a list of its own, which are no part of this
  state; when its list ends or the user ends it, it calls \<^verbatim>\<open>resume_from_interrupt\<close>.
\<close>

definition start_on_demand :: "state \<Rightarrow> int \<Rightarrow> state" where
  "start_on_demand st pos =
     (if in_interrupt st then st
      else st\<lparr>interrupt_state := Some (current_segment st, current_playlist st,
                 current_index st, pos, waiting_next_segment st),
              in_interrupt := True,
              main_player := player_stop (main_player st),
              ondemand_window := True\<rparr>)"

text \<open>
  \<^verbatim>\<open>resume_from_interrupt(terminated)\<close>; \<open>now\<close> is the first clock reading of the
  handler and \<open>now'\<close> the reading of the \<^verbatim>\<open>check_real_time\<close> call that follows a
  discarded snapshot.
\<close>

definition resume_from_interrupt :: "state \<Rightarrow> bool \<Rightarrow> int \<Rightarrow> int \<Rightarrow> state" where
  "resume_from_interrupt st terminated now now' =
     (let st1 = st\<lparr>in_interrupt := False, ondemand_window := False\<rparr>
      in if \<not> running st1 then st1
         else case interrupt_state st1 of
                None \<Rightarrow> check_real_time st1 now
              | Some (seg, plist, idx, pos, wnext) \<Rightarrow>
                  (let st2 = st1\<lparr>interrupt_state := None\<rparr>;
                       active = find_active_segment (time_ranges st2) now
                   in if seg \<noteq> None \<and> active = seg \<and> plist \<noteq> [] then
                        (let st3 = st2\<lparr>current_segment := seg, current_playlist := plist,
                                      current_index := min idx (int (length plist) - 1),
                                      waiting_next_segment := wnext, fullscreen := True\<rparr>
                         in case py_index (current_playlist st3) (current_index st3) of
                              None \<Rightarrow> st3
                            | Some p \<Rightarrow> st3\<lparr>main_player := player_play
                                (player_set_position
                                   (player_set_source (main_player st3) p) pos)\<rparr>)
                      else check_real_time (reset_playback st2) now'))"

section \<open>Events\<close>

text \<open>
  Every handler runs to its end before the next one starts, so a run of the program
  is a sequence of events, each applied to the state the previous one left. An event
  is applied in every state, also where the window does not offer it (a button of
  the hidden panel): the runs of the model include the runs of the program.
\<close>

datatype event =
    Tick int
  | MediaStatus media_status
  | ToggleRun int
  | AddSegment int int
  | DeleteSegment int
  | AddVideo int "(pystr \<times> pystr) list"
  | DeleteVideo int "pystr list" int
  | TogglePause bool
  | RefreshPlaylistView int
  | SaveUiOrder int "pystr list"
  | SetGraceful bool
  | EnterFullscreen
  | EscapeKey
  | StartOnDemand int
  | ResumeFromInterrupt bool int int

fun step :: "state \<Rightarrow> event \<Rightarrow> state" where
  "step st (Tick now) = check_real_time st now"
| "step st (MediaStatus status) = on_media_status st status"
| "step st (ToggleRun now) = snd (toggle_run st now)"
| "step st (AddSegment s e) = snd (add_segment st s e)"
| "step st (DeleteSegment idx) = delete_segment st idx"
| "step st (AddVideo idx srcs) = snd (add_video st idx srcs)"
| "step st (DeleteVideo idx names r) = delete_video st idx names r"
| "step st (TogglePause visible) = toggle_pause_dispatch st visible"
| "step st (RefreshPlaylistView idx) = refresh_playlist_view st idx"
| "step st (SaveUiOrder idx names) = save_ui_order_for_selected_segment st idx names"
| "step st (SetGraceful b) = st\<lparr>graceful_switch := b\<rparr>"
| "step st EnterFullscreen = enter_fullscreen st"
| "step st EscapeKey = escape_key st"
| "step st (StartOnDemand pos) = start_on_demand st pos"
| "step st (ResumeFromInterrupt terminated now now') =
     resume_from_interrupt st terminated now now'"

definition run :: "state \<Rightarrow> event list \<Rightarrow> state" where
  "run st evs = foldl step st evs"

text \<open>
  The state after \<^verbatim>\<open>MainWindow.__init__\<close>: \<open>ranges\<close> are the rows that \<^verbatim>\<open>load_csv\<close>
  read, which it sorts, and \<open>f\<close> is the directory tree found on disk. The
  constructor ends with \<^verbatim>\<open>refresh_segments()\<close> and \<^verbatim>\<open>refresh_playlist_view()\<close>; when
  the latter raises, the program ends there and has no further state.
\<close>

definition initial :: "segment list \<Rightarrow> filesys \<Rightarrow> state" where
  "initial ranges f = refresh_playlist_view (refresh_segments
     \<lparr>time_ranges = sort ranges, running = False, current_segment = None,
      current_playlist = [], current_index = 0, waiting_next_segment = None,
      in_interrupt = False, interrupt_state = None, ondemand_window = False,
      main_player = \<lparr>source = None, position = 0, playback = StoppedState\<rparr>,
      clock_timer = False, graceful_switch = True, fullscreen = False, fs = f\<rparr>) 0"

section \<open>Invariants\<close>

text \<open>No two windows at different places of the list overlap.\<close>

definition non_overlapping :: "segment list \<Rightarrow> bool" where
  "non_overlapping rs =
     (\<forall>i<length rs. \<forall>j<length rs. i \<noteq> j \<longrightarrow> \<not> overlaps (rs ! i) (rs ! j))"

text \<open>
  The index is within a playlist that is not empty. The invariant asks this of the
  current playlist and of the playlist of the snapshot, which
  \<^verbatim>\<open>resume_from_interrupt\<close> puts back.
\<close>

definition index_ok :: "path list \<Rightarrow> int \<Rightarrow> bool" where
  "index_ok pl i = (pl \<noteq> [] \<longrightarrow> 0 \<le> i \<and> i < int (length pl))"

definition index_invariant :: "state \<Rightarrow> bool" where
  "index_invariant st =
     (index_ok (current_playlist st) (current_index st)
      \<and> (case interrupt_state st of
            None \<Rightarrow> True
          | Some (seg, pl, idx, pos, w) \<Rightarrow> index_ok pl idx))"

section \<open>An example run\<close>

text \<open>
  Two windows, 09:00 to 10:00 and 10:00 to 11:00; the directory of the first holds
  three videos and no order file yet. The run is started at 09:10.
\<close>

definition example_fs :: filesys where
  "example_fs = [(540, 600) \<mapsto>
     \<lparr>entries = [py ''b.mp4'', py ''a.mp4'', py ''c.mp4''], subdirs = [], order_txt = None\<rparr>]"

definition example_start :: state where
  "example_start = initial [(540, 600), (600, 660)] example_fs"

definition example_order :: pystr where
  "example_order = order_text [py ''a.mp4'', py ''b.mp4'', py ''c.mp4'']"

definition example_fs' :: filesys where
  "example_fs' = [(540, 600) \<mapsto>
     \<lparr>entries = [py ''b.mp4'', py ''a.mp4'', py ''c.mp4''], subdirs = [], order_txt = Some example_order\<rparr>]"

definition example_playlist :: "path list" where
  "example_playlist =
     [((540, 600), py ''a.mp4''), ((540, 600), py ''b.mp4''), ((540, 600), py ''c.mp4'')]"

definition example_started :: state where
  "example_started = run example_start [ToggleRun 550]"

definition example_events :: "event list" where
  "example_events = [ToggleRun 550, MediaStatus EndOfMedia]"

text \<open>
  After the first video the user leaves full screen with Escape, which shows the
  panel with the on-demand button, and starts an on-demand session 30 seconds into
  the second video.
\<close>

definition example_interrupt :: "event list" where
  "example_interrupt = [ToggleRun 550, MediaStatus EndOfMedia, EscapeKey, StartOnDemand 30000]"

text \<open>
  A run in which the main player plays again during the interrupt: the on-demand
  session is started during the first video, the on-demand window plays and is
  closed with its close box, which hides it and leaves its player playing, and the
  space key then goes to the main window.
\<close>

definition example_orphan :: "event list" where
  "example_orphan = [ToggleRun 550, EscapeKey, StartOnDemand 30000, TogglePause False]"

text \<open>
  The same two windows with two videos in the directory of the second one, as the
  files are when the run has been started at 09:10, and after the playlist of the
  second window has been loaded.
\<close>

definition two_fs :: filesys where
  "two_fs = example_fs((600, 660) \<mapsto>
     \<lparr>entries = [py ''e.mp4'', py ''d.mp4''], subdirs = [], order_txt = None\<rparr>)"

definition two_fs_started :: filesys where
  "two_fs_started = example_fs'((600, 660) \<mapsto>
     \<lparr>entries = [py ''e.mp4'', py ''d.mp4''], subdirs = [], order_txt = None\<rparr>)"

definition two_fs_switched :: filesys where
  "two_fs_switched = example_fs'((600, 660) \<mapsto>
     \<lparr>entries = [py ''e.mp4'', py ''d.mp4''], subdirs = [],
      order_txt = Some (order_text [py ''d.mp4'', py ''e.mp4''])\<rparr>)"

definition two_started :: state where
  "two_started = run (initial [(540, 600), (600, 660)] two_fs) [ToggleRun 550]"

section \<open>Names that the order file keeps\<close>

text \<open>
  A name that \<^verbatim>\<open>write_order\<close> and the reading of \<^verbatim>\<open>load_ordered_files\<close> give back
  unchanged: not empty, without a line boundary inside, without whitespace at its
  start or end.
\<close>

definition clean_name :: "pystr \<Rightarrow> bool" where
  "clean_name n = (n \<noteq> [] \<and> (\<forall>c\<in>set n. \<not> is_linebreak c)
     \<and> \<not> is_space (hd n) \<and> \<not> is_space (last n))"

text \<open>
  The round trip as the specification words it: the names given, filtered to the
  items that exist, in the same relative order, then the items that exist and are
  not among the names, in lexicographic order. The items of a window are the
  entries of its directory that \<^verbatim>\<open>load_ordered_files\<close> lists.
\<close>

definition spec_round_trip :: "filesys \<Rightarrow> segment \<Rightarrow> pystr list \<Rightarrow> pystr list" where
  "spec_round_trip f seg names =
     (let existing = glob_mp4 (read_dir f seg)
      in filter (\<lambda>n. n \<in> set existing) names @ sort (filter (\<lambda>n. n \<notin> set names) existing))"

text \<open>
  Another directory for the window 09:00 to 10:00, with a file whose name starts
  with a space.
\<close>

definition spaced_fs :: filesys where
  "spaced_fs = [(540, 600) \<mapsto> \<lparr>entries = [py '' a.mp4'', py ''b.mp4''], subdirs = [], order_txt = None\<rparr>]"

section \<open>Evaluation of names\<close>

lemma py_Nil [simp]: "py [] = []"
  by (simp add: py_def)

lemma py_Cons [simp]: "py (c # cs) = of_char c # py cs"
  by (simp add: py_def)

section \<open>Properties of the window store\<close>

lemma overlaps_sym: "overlaps a b = overlaps b a"
  by (auto simp: overlaps_def max.commute min.commute)

lemma has_overlap_iff: "has_overlap rs n = (\<exists>r\<in>set rs. overlaps r n)"
  by (simp add: has_overlap_def list_ex_iff)

lemma non_overlapping_sorted_wrt:
  "non_overlapping rs = sorted_wrt (\<lambda>a b. \<not> overlaps a b) rs"
proof
  assume "non_overlapping rs"
  then show "sorted_wrt (\<lambda>a b. \<not> overlaps a b) rs"
    by (simp add: non_overlapping_def sorted_wrt_iff_nth_less)
next
  assume s: "sorted_wrt (\<lambda>a b. \<not> overlaps a b) rs"
  show "non_overlapping rs"
    unfolding non_overlapping_def
  proof (intro allI impI)
    fix i j assume ij: "i < length rs" "j < length rs" "i \<noteq> j"
    show "\<not> overlaps (rs ! i) (rs ! j)"
    proof (cases "i < j")
      case True
      then show ?thesis using s ij by (simp add: sorted_wrt_iff_nth_less)
    next
      case False
      then have "j < i" using ij by simp
      then have "\<not> overlaps (rs ! j) (rs ! i)"
        using s ij by (simp add: sorted_wrt_iff_nth_less)
      then show ?thesis using overlaps_sym by blast
    qed
  qed
qed

lemma disjoint_insort:
  "sorted_wrt (\<lambda>a b. \<not> overlaps a b) (insort x xs)
     = sorted_wrt (\<lambda>a b. \<not> overlaps a b) (x # xs)"
proof (induction xs)
  case Nil
  then show ?case by simp
next
  case (Cons y ys)
  have "overlaps x y = overlaps y x" by (rule overlaps_sym)
  then show ?case using Cons by (auto simp: set_insort_key)
qed

lemma disjoint_sort:
  "sorted_wrt (\<lambda>a b. \<not> overlaps a b) (sort xs) = sorted_wrt (\<lambda>a b. \<not> overlaps a b) xs"
  by (induction xs) (auto simp: disjoint_insort)

lemma disjoint_remove1:
  "sorted_wrt (\<lambda>a b. \<not> overlaps a b) xs
     \<Longrightarrow> sorted_wrt (\<lambda>a b. \<not> overlaps a b) (remove1 x xs)"
  by (induction xs) (auto dest: notin_set_remove1)

lemma time_ranges_refresh [simp]:
  "time_ranges (refresh_playlist_view st i) = time_ranges st"
  by (simp add: refresh_playlist_view_def split: option.splits)

lemma time_ranges_start_segment [simp]:
  "time_ranges (start_segment st seg) = time_ranges st"
  by (simp add: start_segment_def play_current_def Let_def
      split: option.splits prod.splits sum.splits)

lemma time_ranges_check [simp]: "time_ranges (check_real_time st now) = time_ranges st"
  by (simp add: check_real_time_def split: option.splits)

lemma non_overlapping_step:
  "non_overlapping (time_ranges st) \<Longrightarrow> non_overlapping (time_ranges (step st ev))"
proof (cases ev)
  case (AddSegment s e)
  assume "non_overlapping (time_ranges st)"
  then show ?thesis using AddSegment
    by (auto simp: add_segment_def refresh_segments_def non_overlapping_sorted_wrt
        disjoint_sort sorted_wrt_append has_overlap_iff)
next
  case (DeleteSegment i)
  assume "non_overlapping (time_ranges st)"
  then show ?thesis using DeleteSegment
    by (auto simp: delete_segment_def refresh_segments_def reset_playback_def Let_def
        non_overlapping_sorted_wrt disjoint_remove1 split: option.splits)
qed (auto simp: on_media_status_def toggle_run_def reset_playback_def add_video_def Let_def
    save_ui_order_for_selected_segment_def start_on_demand_def resume_from_interrupt_def
    play_current_def delete_video_def toggle_pause_dispatch_def toggle_main_pause_def
    enter_fullscreen_def exit_fullscreen_def escape_key_def
    split: option.splits prod.splits sum.splits)

lemma non_overlapping_run:
  "non_overlapping (time_ranges st) \<Longrightarrow> non_overlapping (time_ranges (run st evs))"
  unfolding run_def
  by (induction evs arbitrary: st) (auto simp: non_overlapping_step)

text \<open>
  Claim C2. Whatever the commands and events, adding windows among them, a store
  whose windows are pairwise disjoint keeps them pairwise disjoint: for two windows
  at different places, \<open>max s1 s2 < min e1 e2\<close> is false. This holds from the empty
  store on. Adding a window for which \<open>max s1 s < min e1 e\<close> holds against a stored
  window \<open>(s1, e1)\<close> shows the time conflict message and leaves the state as it was.
\<close>

theorem add_segment_keeps_windows_disjoint:
  "(non_overlapping (time_ranges st) \<longrightarrow> non_overlapping (time_ranges (run st evs)))
   \<and> (time_ranges st = [] \<longrightarrow> non_overlapping (time_ranges (run st evs)))
   \<and> ((\<exists>r\<in>set (time_ranges st). max (fst r) s < min (snd r) e)
        \<longrightarrow> add_segment st s e = (Some TimeConflict, st))"
proof (intro conjI impI)
  assume "non_overlapping (time_ranges st)"
  then show "non_overlapping (time_ranges (run st evs))" by (rule non_overlapping_run)
next
  assume "time_ranges st = []"
  then have "non_overlapping (time_ranges st)" by (simp add: non_overlapping_def)
  then show "non_overlapping (time_ranges (run st evs))" by (rule non_overlapping_run)
next
  assume ex: "\<exists>r\<in>set (time_ranges st). max (fst r) s < min (snd r) e"
  then have "has_overlap (time_ranges st) (s, e)"
    by (simp add: has_overlap_iff overlaps_def)
  moreover have "\<not> e < s" using ex by auto
  ultimately show "add_segment st s e = (Some TimeConflict, st)"
    by (simp add: add_segment_def)
qed

theorem add_segment_keeps_windows_disjoint_witness:
  "time_ranges (initial [] Map.empty) = []
   \<and> non_overlapping (time_ranges (initial [] Map.empty))
   \<and> non_overlapping (time_ranges (run (initial [] Map.empty)
        [AddSegment 540 600, AddSegment 600 660, AddSegment 590 610]))
   \<and> (\<exists>r\<in>set (time_ranges (initial [(540, 600)] Map.empty)). max (fst r) 590 < min (snd r) 610)
   \<and> add_segment (initial [(540, 600)] Map.empty) 590 610
       = (Some TimeConflict, initial [(540, 600)] Map.empty)"
proof -
  have e: "time_ranges (initial [] Map.empty) = []"
    by (simp add: initial_def refresh_segments_def)
  have n: "non_overlapping (time_ranges (initial [] Map.empty))"
    by (simp add: e non_overlapping_def)
  have x: "\<exists>r\<in>set (time_ranges (initial [(540, 600)] Map.empty)).
      max (fst r) 590 < min (snd r) 610"
    by (simp add: initial_def refresh_segments_def)
  show ?thesis
    using e n x
      add_segment_keeps_windows_disjoint [of "initial [] Map.empty"
        "[AddSegment 540 600, AddSegment 600 660, AddSegment 590 610]" 0 0]
      add_segment_keeps_windows_disjoint [of "initial [(540, 600)] Map.empty" "[]" 590 610]
    by blast
qed

text \<open>
  Claim C8, as the code has it. A window whose end is before its start is refused
  with the illegal time message and the state stays as it was. A window whose end
  equals its start is not refused: it overlaps nothing, so it is stored.
\<close>

theorem add_segment_range_check:
  "(e < s \<longrightarrow> add_segment st s e = (Some IllegalTime, st))
   \<and> fst (add_segment st s s) = None
   \<and> (s, s) \<in> set (time_ranges (snd (add_segment st s s)))"
  by (auto simp: add_segment_def refresh_segments_def has_overlap_iff overlaps_def)

theorem add_segment_range_check_witness:
  "(600::int) < 660 \<and> add_segment (initial [] Map.empty) 660 600
      = (Some IllegalTime, initial [] Map.empty)"
  using add_segment_range_check [of 600 660 "initial [] Map.empty"] by simp

text \<open>
  Claim C8 as the specification words it fails for the window \<open>(5, 5)\<close>: on the
  empty store the command shows no message and the window is stored.
\<close>

theorem add_segment_degenerate_counterexample:
  "(5::int) \<le> 5
   \<and> fst (add_segment (initial [] Map.empty) 5 5) = None
   \<and> time_ranges (initial [] Map.empty) = []
   \<and> time_ranges (snd (add_segment (initial [] Map.empty) 5 5)) = [(5, 5)]"
  by (simp add: add_segment_def initial_def refresh_segments_def has_overlap_def)

section \<open>Starting a run\<close>

text \<open>
  Claim C9. When the run is off and there is no window, or no directory of a window
  holds an entry matching \<^verbatim>\<open>*.mp4\<close>, \<^verbatim>\<open>toggle_run\<close> shows a message and returns with
  the whole state as it was: \<open>running\<close> false, the timer and the playback state
  untouched.
\<close>

theorem toggle_run_rejected_unchanged:
  assumes "\<not> running st"
    and "time_ranges st = []
         \<or> (\<forall>seg\<in>set (time_ranges st). \<forall>n\<in>set (entries (read_dir (fs st) seg)). \<not> is_mp4 n)"
  shows "(toggle_run st now = (Some NoSegments, st) \<or> toggle_run st now = (Some NoVideos, st))
         \<and> running (snd (toggle_run st now)) = False
         \<and> clock_timer (snd (toggle_run st now)) = clock_timer st"
proof (cases "time_ranges st = []")
  case True
  then show ?thesis using assms(1) by (simp add: toggle_run_def)
next
  case False
  then have "\<not> any_segment_has_video (time_ranges st) (fs st)"
    using assms(2) by (auto simp: any_segment_has_video_def dir_has_mp4_def list_ex_iff)
  then show ?thesis using False assms(1) by (simp add: toggle_run_def)
qed

theorem toggle_run_rejected_unchanged_witness:
  "\<not> running (initial [(540, 600)] [(540, 600) \<mapsto> \<lparr>entries = [py ''a.mkv''], subdirs = [], order_txt = None\<rparr>])
   \<and> snd (toggle_run (initial [(540, 600)] [(540, 600) \<mapsto> \<lparr>entries = [py ''a.mkv''], subdirs = [], order_txt = None\<rparr>]) 550)
       = initial [(540, 600)] [(540, 600) \<mapsto> \<lparr>entries = [py ''a.mkv''], subdirs = [], order_txt = None\<rparr>]"
proof -
  let ?st = "initial [(540, 600)] [(540, 600) \<mapsto> \<lparr>entries = [py ''a.mkv''], subdirs = [], order_txt = None\<rparr>]"
  have r: "\<not> running ?st"
    by (simp add: initial_def refresh_segments_def refresh_playlist_view_def
        selected_segment_def)
  have t: "time_ranges ?st = [(540, 600)]"
    by (simp add: initial_def refresh_segments_def)
  have f: "entries (read_dir (fs ?st) (540, 600)) = [py ''a.mkv'']"
    by (simp add: initial_def refresh_segments_def refresh_playlist_view_def
        selected_segment_def load_ordered_files_def mkdir_def read_dir_def write_order_def
        Let_def)
  have h: "time_ranges ?st = []
      \<or> (\<forall>seg\<in>set (time_ranges ?st). \<forall>n\<in>set (entries (read_dir (fs ?st) seg)). \<not> is_mp4 n)"
    using t f by (simp add: is_mp4_def endswith_def)
  show ?thesis
    using r toggle_run_rejected_unchanged [OF r h, of 550] by auto
qed

section \<open>Evaluation of the example run\<close>

lemmas eval_defs = initial_def refresh_segments_def refresh_playlist_view_def selected_segment_def
  load_ordered_files_def mkdir_def read_dir_def write_order_def Let_def ordered_names_def
  glob_mp4_def is_mp4_def endswith_def order_text_def read_names_def splitlines_def strip_def
  is_linebreak_def is_space_def toggle_run_def any_segment_has_video_def dir_has_mp4_def
  check_real_time_def start_segment_def play_current_def py_index_def player_play_def
  player_set_source_def player_stop_def player_set_position_def on_media_status_def
  start_on_demand_def resume_from_interrupt_def reset_playback_def empty_dir_def run_def
  encodable_def is_surrogate_def enter_fullscreen_def exit_fullscreen_def escape_key_def

lemmas order_eval = load_ordered_files_def write_order_def mkdir_def read_dir_def Let_def
  ordered_names_def glob_mp4_def is_mp4_def endswith_def order_text_def read_names_def
  splitlines_def strip_def is_linebreak_def is_space_def spec_round_trip_def
  encodable_def is_surrogate_def

lemma example_start_eq:
  "example_start = \<lparr>time_ranges = [(540, 600), (600, 660)], running = False, current_segment = None,
      current_playlist = [], current_index = 0, waiting_next_segment = None,
      in_interrupt = False, interrupt_state = None, ondemand_window = False,
      main_player = \<lparr>source = None, position = 0, playback = StoppedState\<rparr>,
      clock_timer = False, graceful_switch = True, fullscreen = False, fs = example_fs'\<rparr>"
  by (simp add: example_start_def example_fs_def example_fs'_def example_order_def eval_defs)

lemma example_run_playing:
  "run example_start example_events =
     \<lparr>time_ranges = [(540, 600), (600, 660)], running = True, current_segment = Some (540, 600),
      current_playlist = example_playlist, current_index = 1, waiting_next_segment = None,
      in_interrupt = False, interrupt_state = None, ondemand_window = False,
      main_player = \<lparr>source = Some ((540, 600), py ''b.mp4''), position = 0, playback = PlayingState\<rparr>,
      clock_timer = True, graceful_switch = True, fullscreen = True, fs = example_fs'\<rparr>"
  by (simp add: example_start_eq example_events_def example_playlist_def)
     (simp add: example_fs'_def example_order_def eval_defs)

lemma example_run_interrupted:
  "run example_start example_interrupt =
     \<lparr>time_ranges = [(540, 600), (600, 660)], running = True, current_segment = Some (540, 600),
      current_playlist = example_playlist, current_index = 1, waiting_next_segment = None,
      in_interrupt = True,
      interrupt_state = Some (Some (540, 600), example_playlist, 1, 30000, None),
      ondemand_window = True,
      main_player = \<lparr>source = Some ((540, 600), py ''b.mp4''), position = 0, playback = StoppedState\<rparr>,
      clock_timer = True, graceful_switch = True, fullscreen = False, fs = example_fs'\<rparr>"
  by (simp add: example_start_eq example_interrupt_def example_playlist_def)
     (simp add: example_fs'_def example_order_def eval_defs)

lemma example_run_orphan:
  "run example_start example_orphan =
     \<lparr>time_ranges = [(540, 600), (600, 660)], running = True, current_segment = Some (540, 600),
      current_playlist = example_playlist, current_index = 0, waiting_next_segment = None,
      in_interrupt = True,
      interrupt_state = Some (Some (540, 600), example_playlist, 0, 30000, None),
      ondemand_window = True,
      main_player = \<lparr>source = Some ((540, 600), py ''a.mp4''), position = 0, playback = PlayingState\<rparr>,
      clock_timer = True, graceful_switch = True, fullscreen = False, fs = example_fs'\<rparr>"
  by (simp add: example_start_eq example_orphan_def example_playlist_def)
     (simp add: example_fs'_def example_order_def eval_defs toggle_pause_dispatch_def
        toggle_main_pause_def)

lemma two_started_eq:
  "two_started =
     \<lparr>time_ranges = [(540, 600), (600, 660)], running = True, current_segment = Some (540, 600),
      current_playlist = example_playlist, current_index = 0, waiting_next_segment = None,
      in_interrupt = False, interrupt_state = None, ondemand_window = False,
      main_player = \<lparr>source = Some ((540, 600), py ''a.mp4''), position = 0, playback = PlayingState\<rparr>,
      clock_timer = True, graceful_switch = True, fullscreen = True, fs = two_fs_started\<rparr>"
  by (simp add: two_started_def two_fs_def two_fs_started_def example_fs_def example_playlist_def)
     (simp add: example_fs'_def example_order_def eval_defs fun_upd_twist)

lemma example_started_eq:
  "example_started =
     \<lparr>time_ranges = [(540, 600), (600, 660)], running = True, current_segment = Some (540, 600),
      current_playlist = example_playlist, current_index = 0, waiting_next_segment = None,
      in_interrupt = False, interrupt_state = None, ondemand_window = False,
      main_player = \<lparr>source = Some ((540, 600), py ''a.mp4''), position = 0, playback = PlayingState\<rparr>,
      clock_timer = True, graceful_switch = True, fullscreen = True, fs = example_fs'\<rparr>"
  by (simp add: example_started_def example_start_eq example_playlist_def)
     (simp add: example_fs'_def example_order_def eval_defs)

section \<open>The index invariant\<close>

lemma play_current_fields [simp]:
  "current_playlist (play_current st) = current_playlist st"
  "current_index (play_current st) = current_index st"
  "interrupt_state (play_current st) = interrupt_state st"
  "running (play_current st) = running st"
  "in_interrupt (play_current st) = in_interrupt st"
  "waiting_next_segment (play_current st) = waiting_next_segment st"
  "current_segment (play_current st) = current_segment st"
  by (simp_all add: play_current_def split: option.splits)

lemma index_invariant_play_current [simp]:
  "index_invariant (play_current st) = index_invariant st"
  by (simp add: index_invariant_def)

lemma index_invariant_start_segment:
  assumes "index_invariant st"
  shows "index_invariant (start_segment st seg)"
proof -
  obtain res f where l: "load_ordered_files (fs st) seg = (res, f)"
    by (cases "load_ordered_files (fs st) seg") auto
  show ?thesis
  proof (cases res)
    case (Inl err)
    then show ?thesis using assms l
      by (simp add: start_segment_def Let_def index_invariant_def)
  next
    case (Inr plist)
    then show ?thesis using assms l
      by (simp add: start_segment_def Let_def index_invariant_def index_ok_def)
  qed
qed

lemma index_invariant_cong:
  "current_playlist a = current_playlist b \<Longrightarrow> current_index a = current_index b
   \<Longrightarrow> interrupt_state a = interrupt_state b \<Longrightarrow> index_invariant a = index_invariant b"
  by (simp add: index_invariant_def)

lemma index_invariant_check:
  assumes "index_invariant st"
  shows "index_invariant (check_real_time st now)"
proof -
  have w: "index_invariant (st\<lparr>waiting_next_segment := w\<rparr>)" for w
    using assms by (simp add: index_invariant_def)
  show ?thesis
    using assms w by (simp add: check_real_time_def index_invariant_start_segment
        split: option.splits)
qed

lemma index_invariant_media:
  "index_invariant st \<Longrightarrow> index_invariant (on_media_status st status)"
  by (auto simp: on_media_status_def index_invariant_start_segment split: option.splits)
    (simp add: index_invariant_def index_ok_def)

lemma index_invariant_fs [simp]: "index_invariant (st\<lparr>fs := f\<rparr>) = index_invariant st"
  by (simp add: index_invariant_def)

lemma index_invariant_refresh [simp]:
  "index_invariant (refresh_playlist_view st i) = index_invariant st"
  by (simp add: refresh_playlist_view_def split: option.splits)

lemma index_invariant_reset:
  "index_invariant st \<Longrightarrow> index_invariant (reset_playback st)"
  by (simp add: index_invariant_def reset_playback_def index_ok_def)

lemma index_invariant_resume:
  assumes "index_invariant st"
  shows "index_invariant (resume_from_interrupt st t now now')"
proof -
  let ?st1 = "st\<lparr>in_interrupt := False, ondemand_window := False\<rparr>"
  have i1: "index_invariant ?st1"
    using assms by (simp add: index_invariant_def)
  show ?thesis
  proof (cases "running st")
    case False
    then show ?thesis using i1 by (simp add: resume_from_interrupt_def)
  next
    case True
    show ?thesis
    proof (cases "interrupt_state st")
      case None
      then show ?thesis
        using True index_invariant_check [OF i1]
        by (simp add: resume_from_interrupt_def)
    next
      case (Some snap)
      obtain seg plist idx pos wnext where snap: "snap = (seg, plist, idx, pos, wnext)"
        by (cases snap) auto
      have ok: "index_ok plist idx"
        using assms Some snap by (simp add: index_invariant_def)
      let ?st2 = "?st1\<lparr>interrupt_state := None\<rparr>"
      have r: "index_invariant (check_real_time (reset_playback ?st2) now')"
        by (rule index_invariant_check)
          (simp add: index_invariant_def reset_playback_def index_ok_def)
      show ?thesis
      proof (cases "seg \<noteq> None \<and> find_active_segment (time_ranges st) now = seg \<and> plist \<noteq> []")
        case False
        then show ?thesis using True Some snap r
          by (auto simp: resume_from_interrupt_def Let_def)
      next
        case c: True
        then have m: "min idx (int (length plist) - 1) = idx" using ok
          by (simp add: index_ok_def)
        show ?thesis using True Some snap c ok m
          by (simp add: resume_from_interrupt_def Let_def index_invariant_def
              split: option.splits)
      qed
    qed
  qed
qed

lemma index_invariant_step:
  "index_invariant st \<Longrightarrow> index_invariant (step st ev)"
proof (cases ev)
  case (Tick x1)
  assume "index_invariant st"
  then show ?thesis using Tick by (simp add: index_invariant_check)
next
  case (MediaStatus x2)
  assume "index_invariant st"
  then show ?thesis using MediaStatus by (simp add: index_invariant_media)
next
  case (ToggleRun x3)
  assume i: "index_invariant st"
  then have a: "index_invariant (check_real_time (st\<lparr>running := True, clock_timer := True\<rparr>) x3)"
    by (intro index_invariant_check) (simp add: index_invariant_def)
  have b: "index_invariant (reset_playback (st\<lparr>running := False, clock_timer := False,
                     main_player := player_stop (main_player st)\<rparr>))"
    using i by (intro index_invariant_reset) (simp add: index_invariant_def)
  show ?thesis using ToggleRun i a b by (simp add: toggle_run_def)
next
  case (AddSegment x41 x42)
  assume "index_invariant st"
  then show ?thesis using AddSegment
    by (simp add: add_segment_def refresh_segments_def) (simp add: index_invariant_def)
next
  case (DeleteSegment x5)
  assume "index_invariant st"
  then show ?thesis using DeleteSegment
    by (simp add: delete_segment_def refresh_segments_def Let_def split: option.splits)
      (simp add: index_invariant_def index_ok_def reset_playback_def)
next
  case (AddVideo x61 x62)
  assume "index_invariant st"
  then show ?thesis using AddVideo
    by (simp add: add_video_def Let_def split: option.splits prod.splits sum.splits)
next
  case (DeleteVideo i names r)
  assume "index_invariant st"
  then show ?thesis using DeleteVideo
    by (simp add: delete_video_def Let_def split: option.splits)
next
  case (TogglePause v)
  assume "index_invariant st"
  then show ?thesis using TogglePause
    by (simp add: toggle_pause_dispatch_def toggle_main_pause_def index_invariant_def)
next
  case (RefreshPlaylistView x7)
  assume "index_invariant st"
  then show ?thesis using RefreshPlaylistView by simp
next
  case (SaveUiOrder x81 x82)
  assume "index_invariant st"
  then show ?thesis using SaveUiOrder
    by (simp add: save_ui_order_for_selected_segment_def split: option.splits)
next
  case (SetGraceful x9)
  assume "index_invariant st"
  then show ?thesis using SetGraceful by (simp add: index_invariant_def)
next
  case EnterFullscreen
  assume "index_invariant st"
  then show ?thesis using EnterFullscreen
    by (simp add: enter_fullscreen_def index_invariant_def)
next
  case EscapeKey
  assume "index_invariant st"
  then show ?thesis using EscapeKey
    by (simp add: escape_key_def exit_fullscreen_def index_invariant_def)
next
  case (StartOnDemand x10)
  assume "index_invariant st"
  then show ?thesis using StartOnDemand
    by (simp add: start_on_demand_def index_invariant_def)
next
  case (ResumeFromInterrupt x111 x112 x113)
  assume "index_invariant st"
  then show ?thesis using ResumeFromInterrupt by (simp add: index_invariant_resume)
qed

lemma index_invariant_run:
  "index_invariant st \<Longrightarrow> index_invariant (run st evs)"
  unfolding run_def
  by (induction evs arbitrary: st) (auto simp: index_invariant_step)

lemma index_invariant_initial: "index_invariant (initial ranges f)"
  by (simp add: initial_def refresh_segments_def) (simp add: index_invariant_def index_ok_def)

text \<open>
  Claim C7. Every event keeps the index invariant: the handler of the timer and of
  the end of media (which start a window and advance the index), stopping the run,
  deleting a window, starting and ending an on-demand session. The state after
  \<^verbatim>\<open>__init__\<close> has it, so in every state the program reaches the index is at least
  0 and less than the length of the playlist, when the playlist is not empty.
\<close>

theorem index_bounds_preserved:
  "(index_invariant st \<longrightarrow> index_invariant (step st ev))
   \<and> index_invariant (run (initial ranges f) evs)
   \<and> (current_playlist (run (initial ranges f) evs) \<noteq> []
        \<longrightarrow> 0 \<le> current_index (run (initial ranges f) evs)
            \<and> current_index (run (initial ranges f) evs)
                < int (length (current_playlist (run (initial ranges f) evs))))"
proof -
  have r: "index_invariant (run (initial ranges f) evs)"
    by (rule index_invariant_run [OF index_invariant_initial])
  then show ?thesis
    by (simp add: index_invariant_step) (simp add: index_invariant_def index_ok_def)
qed

theorem index_bounds_preserved_witness:
  "index_invariant (run example_start example_events)
   \<and> index_invariant (step (run example_start example_events) (MediaStatus EndOfMedia))
   \<and> current_playlist (run example_start example_events) \<noteq> []
   \<and> 0 \<le> current_index (run example_start example_events)
   \<and> current_index (run example_start example_events)
        < int (length (current_playlist (run example_start example_events)))"
proof -
  have n: "current_playlist (run example_start example_events) \<noteq> []"
    by (simp add: example_run_playing example_playlist_def)
  show ?thesis
    using n index_bounds_preserved [of "run example_start example_events" "MediaStatus EndOfMedia"
        "[(540, 600), (600, 660)]" example_fs example_events]
    by (simp add: example_start_def)
qed

section \<open>Interrupt and resume: continuity\<close>

lemma player_commands:
  "player_play (player_set_position (player_set_source p src) pos)
     = \<lparr>source = Some src, position = pos, playback = PlayingState\<rparr>"
  "player_play (player_set_source p src)
     = \<lparr>source = Some src, position = 0, playback = PlayingState\<rparr>"
  by (cases p; simp add: player_play_def player_set_position_def player_set_source_def)+

lemma py_index_in_range:
  "0 \<le> i \<Longrightarrow> i < int (length xs) \<Longrightarrow> py_index xs i = Some (xs ! nat i)"
  by (simp add: py_index_def)

text \<open>
  With the run on and a snapshot whose index is within its playlist, as the index
  invariant gives it: when the window of the snapshot is a window, is the active
  window at the clock reading of \<^verbatim>\<open>resume_from_interrupt\<close> and the playlist of the
  snapshot is not empty, the handler puts back window, playlist, index and pending
  window of the snapshot, sets the source of the player to the item at that index,
  the position to the offset of the snapshot, and plays. Otherwise it clears
  window, playlist, index and pending window and runs \<^verbatim>\<open>check_real_time\<close> at once;
  it gives the player no command.
\<close>

lemma resume_restores:
  assumes "running st"
    and "interrupt_state st = Some (seg, plist, idx, pos, wnext)"
    and "index_ok plist idx"
  shows "(seg \<noteq> None \<and> find_active_segment (time_ranges st) now = seg \<and> plist \<noteq> []
          \<longrightarrow> resume_from_interrupt st terminated now now'
              = st\<lparr>in_interrupt := False, ondemand_window := False, interrupt_state := None,
                   current_segment := seg, current_playlist := plist, current_index := idx,
                   waiting_next_segment := wnext, fullscreen := True,
                   main_player := \<lparr>source = Some (plist ! nat idx), position = pos,
                                    playback = PlayingState\<rparr>\<rparr>)
       \<and> (\<not> (seg \<noteq> None \<and> find_active_segment (time_ranges st) now = seg \<and> plist \<noteq> [])
          \<longrightarrow> resume_from_interrupt st terminated now now'
              = check_real_time
                  (st\<lparr>in_interrupt := False, ondemand_window := False, interrupt_state := None,
                      current_segment := None, current_playlist := [], current_index := 0,
                      waiting_next_segment := None\<rparr>) now')"
proof (intro conjI impI)
  assume c: "seg \<noteq> None \<and> find_active_segment (time_ranges st) now = seg \<and> plist \<noteq> []"
  then have ok: "0 \<le> idx \<and> idx < int (length plist)"
    using assms(3) by (simp add: index_ok_def)
  then have m: "min idx (int (length plist) - 1) = idx" by simp
  have p: "py_index plist idx = Some (plist ! nat idx)"
    using ok by (simp add: py_index_in_range)
  show "resume_from_interrupt st terminated now now'
      = st\<lparr>in_interrupt := False, ondemand_window := False, interrupt_state := None,
           current_segment := seg, current_playlist := plist, current_index := idx,
           waiting_next_segment := wnext, fullscreen := True,
           main_player := \<lparr>source = Some (plist ! nat idx), position = pos,
                            playback = PlayingState\<rparr>\<rparr>"
    using assms(1,2) c m p
    by (simp add: resume_from_interrupt_def Let_def player_commands)
next
  assume c: "\<not> (seg \<noteq> None \<and> find_active_segment (time_ranges st) now = seg \<and> plist \<noteq> [])"
  then show "resume_from_interrupt st terminated now now'
      = check_real_time
          (st\<lparr>in_interrupt := False, ondemand_window := False, interrupt_state := None,
              current_segment := None, current_playlist := [], current_index := 0,
              waiting_next_segment := None\<rparr>) now'"
    using assms(1,2)
    by (auto simp: resume_from_interrupt_def Let_def reset_playback_def)
qed

text \<open>
  The scenario of the specification: window 09:00 to 10:00 at index 1, interrupted
  at 30 seconds and resumed at 09:15, comes back at index 1 and 30 seconds, playing.
\<close>

lemma resume_restores_example:
  "resume_from_interrupt (run example_start example_interrupt) True 555 555
     = (run example_start example_interrupt)
         \<lparr>in_interrupt := False, ondemand_window := False, interrupt_state := None,
          current_segment := Some (540, 600), current_playlist := example_playlist,
          current_index := 1, waiting_next_segment := None, fullscreen := True,
          main_player := \<lparr>source = Some ((540, 600), py ''b.mp4''), position = 30000,
                           playback = PlayingState\<rparr>\<rparr>"
proof -
  let ?st = "run example_start example_interrupt"
  have r: "running ?st" by (simp add: example_run_interrupted)
  have i: "interrupt_state ?st = Some (Some (540, 600), example_playlist, 1, 30000, None)"
    by (simp add: example_run_interrupted)
  have k: "index_ok example_playlist 1" by (simp add: index_ok_def example_playlist_def)
  have a: "find_active_segment (time_ranges ?st) 555 = Some (540, 600)"
    by (simp add: example_run_interrupted)
  have n: "example_playlist \<noteq> []" by (simp add: example_playlist_def)
  have e: "example_playlist ! nat 1 = ((540, 600), py ''b.mp4'')"
    by (simp add: example_playlist_def)
  show ?thesis
    using a n e resume_restores [OF r i k, of 555 True 555] by simp
qed

text \<open>
  Claim C1. The half of the claim for a discarded snapshot fails in the run
  \<open>example_orphan\<close>. The session is interrupted in window 09:00 to 10:00, the main
  player is started again by the space key while the on-demand window is hidden,
  and the on-demand list ends at 11:40, when no window is active. The handler
  clears window, playlist and index and the tick finds nothing to start, but the
  main player goes on playing the first video of the discarded window: the session
  has no window and is not idle. \<^verbatim>\<open>toggle_run\<close> and \<^verbatim>\<open>delete_segment\<close> stop the
  player where they clear the same four fields; \<^verbatim>\<open>resume_from_interrupt\<close> does not.
\<close>

theorem resume_discard_leaves_player_playing:
  "running (run example_start example_orphan)
   \<and> interrupt_state (run example_start example_orphan)
       = Some (Some (540, 600), example_playlist, 0, 30000, None)
   \<and> find_active_segment (time_ranges (run example_start example_orphan)) 700 = None
   \<and> current_segment (resume_from_interrupt (run example_start example_orphan) False 700 700)
       = None
   \<and> current_playlist (resume_from_interrupt (run example_start example_orphan) False 700 700)
       = []
   \<and> main_player (resume_from_interrupt (run example_start example_orphan) False 700 700)
       = \<lparr>source = Some ((540, 600), py ''a.mp4''), position = 0, playback = PlayingState\<rparr>"
  by (simp add: example_run_orphan)
     (simp add: resume_from_interrupt_def check_real_time_def reset_playback_def)

section \<open>Graceful switch\<close>

lemma tick_defers:
  assumes "current_segment st \<noteq> None" and "graceful_switch st"
  shows "\<exists>w. check_real_time st now = st\<lparr>waiting_next_segment := w\<rparr>"
proof (cases "check_real_time st now = st")
  case True
  then have "check_real_time st now = st\<lparr>waiting_next_segment := waiting_next_segment st\<rparr>"
    by simp
  then show ?thesis by blast
next
  case False
  then show ?thesis using assms
    by (auto simp: check_real_time_def split: option.splits if_splits)
qed

lemma ticks_defer:
  assumes "current_segment st \<noteq> None" and "graceful_switch st"
  shows "\<exists>w. run st (map Tick nows) = st\<lparr>waiting_next_segment := w\<rparr>"
  using assms
proof (induction nows arbitrary: st)
  case Nil
  have "run st (map Tick []) = st\<lparr>waiting_next_segment := waiting_next_segment st\<rparr>"
    by (simp add: run_def)
  then show ?case by blast
next
  case (Cons n ns)
  obtain w where w: "check_real_time st n = st\<lparr>waiting_next_segment := w\<rparr>"
    using tick_defers [OF Cons.prems] by blast
  have "\<exists>w'. run (st\<lparr>waiting_next_segment := w\<rparr>) (map Tick ns)
      = st\<lparr>waiting_next_segment := w\<rparr>\<lparr>waiting_next_segment := w'\<rparr>"
    using Cons.prems by (intro Cons.IH) simp_all
  then show ?case using w by (simp add: run_def)
qed

text \<open>
  Claim C3. With the run on, no interrupt, a current window, graceful switching
  enabled and an active window that is not the current one, the handler of the timer
  changes nothing but the pending window, which becomes the active window. Any
  number of further ticks, at any clock readings, again change at most the pending
  window. The handler of the end of media then makes the switch: the pending window
  becomes the current one and the pending window is cleared; when its playlist
  loads, the playlist is set, the index is 0 and, unless the playlist is empty, the
  window goes full screen and the player plays the first item. (When the loading
  raises, the handler ends with playlist and index as they were.)
\<close>

theorem graceful_switch_deferred:
  assumes "running st" and "\<not> in_interrupt st"
    and "find_active_segment (time_ranges st) now = Some active"
    and "current_segment st = Some cur" and "cur \<noteq> active"
    and "graceful_switch st"
  shows "check_real_time st now = st\<lparr>waiting_next_segment := Some active\<rparr>
       \<and> (\<exists>w. run (check_real_time st now) (map Tick nows) = st\<lparr>waiting_next_segment := w\<rparr>)
       \<and> current_segment (on_media_status (check_real_time st now) EndOfMedia) = Some active
       \<and> waiting_next_segment (on_media_status (check_real_time st now) EndOfMedia) = None
       \<and> (load_ordered_files (fs st) active = (Inr (p # ps), f')
            \<longrightarrow> on_media_status (check_real_time st now) EndOfMedia
                = st\<lparr>current_segment := Some active, waiting_next_segment := None,
                     current_playlist := p # ps, current_index := 0, fs := f',
                     fullscreen := True,
                     main_player := \<lparr>source = Some p, position = 0,
                                      playback = PlayingState\<rparr>\<rparr>)
       \<and> (load_ordered_files (fs st) active = (Inr [], f')
            \<longrightarrow> on_media_status (check_real_time st now) EndOfMedia
                = st\<lparr>current_segment := Some active, waiting_next_segment := None,
                     current_playlist := [], current_index := 0, fs := f'\<rparr>)"
proof -
  have t: "check_real_time st now = st\<lparr>waiting_next_segment := Some active\<rparr>"
    using assms by (simp add: check_real_time_def)
  have "\<exists>w. run (st\<lparr>waiting_next_segment := Some active\<rparr>) (map Tick nows)
      = st\<lparr>waiting_next_segment := Some active\<rparr>\<lparr>waiting_next_segment := w\<rparr>"
    using assms by (intro ticks_defer) simp_all
  then have k: "\<exists>w. run (check_real_time st now) (map Tick nows) = st\<lparr>waiting_next_segment := w\<rparr>"
    using t by simp
  have m: "on_media_status (st\<lparr>waiting_next_segment := Some active\<rparr>) EndOfMedia
      = start_segment (st\<lparr>waiting_next_segment := Some active\<rparr>) active"
    using assms by (simp add: on_media_status_def)
  obtain res g where l: "load_ordered_files (fs st) active = (res, g)"
    by (cases "load_ordered_files (fs st) active") auto
  have c: "current_segment (start_segment (st\<lparr>waiting_next_segment := Some active\<rparr>) active)
        = Some active
      \<and> waiting_next_segment (start_segment (st\<lparr>waiting_next_segment := Some active\<rparr>) active)
        = None"
    using l by (cases res) (simp_all add: start_segment_def Let_def)
  have i: "py_index (p # ps) 0 = Some p" by (simp add: py_index_def)
  have s1: "load_ordered_files (fs st) active = (Inr (p # ps), f')
      \<longrightarrow> start_segment (st\<lparr>waiting_next_segment := Some active\<rparr>) active
          = st\<lparr>current_segment := Some active, waiting_next_segment := None,
               current_playlist := p # ps, current_index := 0, fs := f',
               fullscreen := True,
               main_player := \<lparr>source = Some p, position = 0, playback = PlayingState\<rparr>\<rparr>"
    using i by (simp add: start_segment_def Let_def play_current_def player_commands)
  have s2: "load_ordered_files (fs st) active = (Inr [], f')
      \<longrightarrow> start_segment (st\<lparr>waiting_next_segment := Some active\<rparr>) active
          = st\<lparr>current_segment := Some active, waiting_next_segment := None,
               current_playlist := [], current_index := 0, fs := f'\<rparr>"
    by (simp add: start_segment_def Let_def)
  show ?thesis unfolding t m using k c s1 s2 unfolding t by blast
qed

theorem graceful_switch_deferred_witness:
  "running two_started \<and> \<not> in_interrupt two_started
   \<and> find_active_segment (time_ranges two_started) 600 = Some (600, 660)
   \<and> current_segment two_started = Some (540, 600)
   \<and> graceful_switch two_started
   \<and> check_real_time two_started 600 = two_started\<lparr>waiting_next_segment := Some (600, 660)\<rparr>
   \<and> current_segment (run (check_real_time two_started 600) (map Tick [600, 601, 602]))
       = Some (540, 600)
   \<and> main_player (run (check_real_time two_started 600) (map Tick [600, 601, 602]))
       = main_player two_started
   \<and> load_ordered_files (fs two_started) (600, 660)
       = (Inr [((600, 660), py ''d.mp4''), ((600, 660), py ''e.mp4'')], two_fs_switched)
   \<and> on_media_status (check_real_time two_started 600) EndOfMedia
       = two_started\<lparr>current_segment := Some (600, 660), waiting_next_segment := None,
           current_playlist := [((600, 660), py ''d.mp4''), ((600, 660), py ''e.mp4'')],
           current_index := 0, fs := two_fs_switched, fullscreen := True,
           main_player := \<lparr>source = Some ((600, 660), py ''d.mp4''), position = 0,
                            playback = PlayingState\<rparr>\<rparr>"
proof -
  have r: "running two_started" and i: "\<not> in_interrupt two_started"
    and a: "find_active_segment (time_ranges two_started) 600 = Some (600, 660)"
    and c: "current_segment two_started = Some (540, 600)"
    and g: "graceful_switch two_started"
    by (simp_all add: two_started_eq)
  have d: "(540::int, 600::int) \<noteq> (600, 660)" by simp
  have l: "load_ordered_files (fs two_started) (600, 660)
      = (Inr [((600, 660), py ''d.mp4''), ((600, 660), py ''e.mp4'')], two_fs_switched)"
    by (simp add: two_started_eq)
      (simp add: two_fs_started_def two_fs_switched_def order_eval)
  note t = graceful_switch_deferred [OF r i a c d g, of "[600, 601, 602]"
      "((600, 660), py ''d.mp4'')" "[((600, 660), py ''e.mp4'')]" two_fs_switched]
  have k: "current_segment (run (check_real_time two_started 600) (map Tick [600, 601, 602]))
         = Some (540, 600)
       \<and> main_player (run (check_real_time two_started 600) (map Tick [600, 601, 602]))
         = main_player two_started"
    using t c by auto
  show ?thesis using r i a c g l k t by blast
qed

section \<open>Looping\<close>

lemma end_of_media_advance:
  assumes "running st" and "\<not> in_interrupt st"
    and "waiting_next_segment st = None" and "current_playlist st \<noteq> []"
  shows "on_media_status st EndOfMedia
      = st\<lparr>current_index := (current_index st + 1) mod int (length (current_playlist st)),
           main_player := \<lparr>source = Some (current_playlist st
               ! nat ((current_index st + 1) mod int (length (current_playlist st)))),
             position = 0, playback = PlayingState\<rparr>\<rparr>"
proof -
  let ?n = "int (length (current_playlist st))"
  let ?j = "(current_index st + 1) mod ?n"
  have n: "0 < ?n" using assms(4) by simp
  then have j: "0 \<le> ?j \<and> ?j < ?n" by simp
  then have "py_index (current_playlist st) ?j = Some (current_playlist st ! nat ?j)"
    by (simp add: py_index_in_range)
  then show ?thesis using assms
    by (simp add: on_media_status_def play_current_def player_commands)
qed

lemma end_of_media_repeat:
  assumes "running st" and "\<not> in_interrupt st"
    and "waiting_next_segment st = None" and "current_playlist st \<noteq> []"
  shows "current_index (run st (replicate (Suc k) (MediaStatus EndOfMedia)))
      = (current_index st + 1 + int k) mod int (length (current_playlist st))"
  using assms
proof (induction k arbitrary: st)
  case 0
  then show ?case by (simp add: run_def end_of_media_advance)
next
  case (Suc k)
  let ?st' = "on_media_status st EndOfMedia"
  let ?n = "int (length (current_playlist st))"
  have e: "?st' = st\<lparr>current_index := (current_index st + 1) mod ?n,
           main_player := \<lparr>source = Some (current_playlist st
               ! nat ((current_index st + 1) mod ?n)),
             position = 0, playback = PlayingState\<rparr>\<rparr>"
    by (rule end_of_media_advance [OF Suc.prems])
  have "current_index (run ?st' (replicate (Suc k) (MediaStatus EndOfMedia)))
      = (current_index ?st' + 1 + int k) mod int (length (current_playlist ?st'))"
    using Suc.prems by (intro Suc.IH) (simp_all add: e)
  also have "\<dots> = ((current_index st + 1) mod ?n + (1 + int k)) mod ?n"
    by (simp add: e add.assoc)
  also have "\<dots> = (current_index st + 1 + (1 + int k)) mod ?n"
    by (rule mod_add_left_eq)
  finally show ?case by (simp add: run_def add.assoc)
qed

text \<open>
  Claim C4. With the run on, no interrupt, no pending window and a playlist of
  \<open>n > 0\<close> items, the end of media moves the index to \<open>(index + 1) mod n\<close>, sets the
  source of the player to that item and plays it; nothing else changes. After
  \<open>k + 1\<close> such events the index is \<open>(index + 1 + k) mod n\<close>: with three items and
  index 0 the indices are 1, 2, 0, 1, 2, 0.
\<close>

theorem end_of_media_loops:
  assumes "running st" and "\<not> in_interrupt st"
    and "waiting_next_segment st = None" and "current_playlist st \<noteq> []"
  shows "on_media_status st EndOfMedia
      = st\<lparr>current_index := (current_index st + 1) mod int (length (current_playlist st)),
           main_player := \<lparr>source = Some (current_playlist st
               ! nat ((current_index st + 1) mod int (length (current_playlist st)))),
             position = 0, playback = PlayingState\<rparr>\<rparr>
    \<and> current_index (run st (replicate (Suc k) (MediaStatus EndOfMedia)))
      = (current_index st + 1 + int k) mod int (length (current_playlist st))"
  using end_of_media_advance [OF assms] end_of_media_repeat [OF assms] by simp

theorem end_of_media_loops_witness:
  "running example_started \<and> \<not> in_interrupt example_started
   \<and> waiting_next_segment example_started = None
   \<and> length (current_playlist example_started) = 3
   \<and> current_index example_started = 0
   \<and> map (\<lambda>k. current_index (run example_started (replicate k (MediaStatus EndOfMedia))))
        [1, 2, 3, 4, 5, 6] = [1, 2, 0, 1, 2, 0]"
proof -
  have r: "running example_started" and i: "\<not> in_interrupt example_started"
    and w: "waiting_next_segment example_started = None"
    and p: "current_playlist example_started \<noteq> []"
    and l: "length (current_playlist example_started) = 3"
    and c: "current_index example_started = 0"
    by (simp_all add: example_started_eq example_playlist_def)
  note t = end_of_media_loops [OF r i w p]
  show ?thesis
    using r i w l c t [of 0] t [of 1] t [of 2] t [of 3] t [of 4] t [of 5]
    by (simp add: numeral_eq_Suc)
qed

section \<open>The order record: writing and reading back\<close>

lemma splitlines_from_line:
  "\<forall>c\<in>set n. \<not> is_linebreak c
   \<Longrightarrow> splitlines_from cur (n @ 10 # rest) = (cur @ n) # splitlines_from [] rest"
proof (induction n arbitrary: cur)
  case Nil
  then show ?case by (simp add: is_linebreak_def)
next
  case (Cons c n)
  then have c: "\<not> is_linebreak c" by simp
  then have "c \<noteq> 13" by (auto simp: is_linebreak_def)
  then show ?case using Cons c by simp
qed

lemma order_text_Cons: "order_text (n # ns) = n @ 10 # order_text ns"
  by (cases ns) (simp_all add: order_text_def)

lemma splitlines_order_text:
  "\<forall>n\<in>set names. \<forall>c\<in>set n. \<not> is_linebreak c \<Longrightarrow> splitlines (order_text names) = names"
proof (induction names)
  case Nil
  then show ?case by (simp add: splitlines_def order_text_def)
next
  case (Cons n ns)
  then show ?case
    by (simp add: order_text_Cons splitlines_def splitlines_from_line)
qed

lemma dropWhile_hd: "xs \<noteq> [] \<Longrightarrow> \<not> P (hd xs) \<Longrightarrow> dropWhile P xs = xs"
  by (cases xs) simp_all

lemma strip_clean: "clean_name n \<Longrightarrow> strip n = n"
proof -
  assume c: "clean_name n"
  have 1: "dropWhile is_space n = n"
    using c by (intro dropWhile_hd) (simp_all add: clean_name_def)
  have 2: "dropWhile is_space (rev n) = rev n"
    using c by (intro dropWhile_hd) (simp_all add: clean_name_def hd_rev)
  show ?thesis by (simp add: strip_def 1 2)
qed

lemma read_names_order_text:
  assumes "\<forall>n\<in>set names. clean_name n"
  shows "read_names (order_text names) = names"
proof -
  have "splitlines (order_text names) = names"
    using assms by (intro splitlines_order_text) (simp add: clean_name_def)
  moreover have "map strip names = names"
    using assms by (induction names) (simp_all add: strip_clean)
  moreover have "filter (\<lambda>l. l \<noteq> []) names = names"
    using assms by (induction names) (simp_all add: clean_name_def)
  ultimately show ?thesis by (simp add: read_names_def)
qed

lemma take_ordered_distinct:
  "distinct names \<Longrightarrow> take_ordered names files
     = (filter (\<lambda>n. n \<in> set files) names, filter (\<lambda>n. n \<notin> set names) files)"
proof (induction names arbitrary: files)
  case Nil
  then show ?case by simp
next
  case (Cons n ns)
  have a: "filter (\<lambda>m. m \<in> set files \<and> m \<noteq> n) ns = filter (\<lambda>m. m \<in> set files) ns"
    using Cons.prems by (intro filter_cong) auto
  have b: "filter (\<lambda>m. m \<notin> set ns) (removeAll n files) = filter (\<lambda>m. m \<noteq> n \<and> m \<notin> set ns) files"
    by (induction files) auto
  have c: "n \<notin> set files \<Longrightarrow> filter (\<lambda>m. m \<noteq> n \<and> m \<notin> set ns) files = filter (\<lambda>m. m \<notin> set ns) files"
    by (intro filter_cong) auto
  show ?case using Cons a b c by (auto simp: )
qed

lemma take_ordered_sets:
  "take_ordered names files = (ordered, rest)
   \<Longrightarrow> set ordered \<union> set rest = set files \<and> set ordered \<inter> set rest = {}
       \<and> distinct ordered \<and> (distinct files \<longrightarrow> distinct rest)"
proof (induction names arbitrary: files ordered rest)
  case Nil
  then show ?case by auto
next
  case (Cons n ns)
  show ?case
  proof (cases "n \<in> set files")
    case False
    then show ?thesis using Cons by simp
  next
    case True
    obtain o' r' where t: "take_ordered ns (removeAll n files) = (o', r')"
      by (cases "take_ordered ns (removeAll n files)") auto
    note ih = Cons.IH [OF t]
    have e: "ordered = n # o'" "rest = r'" using Cons.prems True t by auto
    show ?thesis using ih True e by (auto simp: distinct_removeAll)
  qed
qed

lemma ordered_names_empty [simp]: "ordered_names empty_dir = []"
  by (simp add: ordered_names_def empty_dir_def glob_mp4_def)

lemma glob_mp4_order [simp]: "glob_mp4 (d\<lparr>order_txt := t\<rparr>) = glob_mp4 d"
  by (simp add: glob_mp4_def)

lemma ordered_names_written:
  assumes "distinct names" and "\<forall>n\<in>set names. clean_name n"
  shows "ordered_names (d\<lparr>order_txt := Some (order_text names)\<rparr>)
     = filter (\<lambda>n. n \<in> set (glob_mp4 d)) names @ sort (filter (\<lambda>n. n \<notin> set names) (glob_mp4 d))"
  using assms
  by (simp add: ordered_names_def read_names_order_text take_ordered_distinct Let_def)

lemma mkdir_Some: "f seg = Some d \<Longrightarrow> mkdir f seg = f"
  by (simp add: mkdir_def)

lemma mkdir_None: "f seg = None \<Longrightarrow> mkdir f seg = f(seg \<mapsto> empty_dir)"
  by (simp add: mkdir_def)

lemma read_dir_mkdir [simp]: "read_dir (mkdir f seg) seg' = read_dir f seg'"
  by (simp add: read_dir_def mkdir_def split: option.splits)

lemma mkdir_exists: "mkdir f seg seg \<noteq> None"
  by (simp add: mkdir_def split: option.splits)

text \<open>
  The names of a playlist that \<^verbatim>\<open>load_ordered_files\<close> returns are the ordered names
  of the directory, and the call leaves them in the order file.
\<close>

lemma load_ordered_files_Inr:
  assumes "load_ordered_files f seg = (Inr plist, f')"
  shows "plist = map (\<lambda>n. (seg, n)) (ordered_names (read_dir f seg))
       \<and> f' = (mkdir f seg)(seg \<mapsto> (read_dir f seg)
                  \<lparr>order_txt := Some (order_text (ordered_names (read_dir f seg)))\<rparr>)
       \<and> encodable (order_text (ordered_names (read_dir f seg)))"
proof -
  obtain d where d: "mkdir f seg seg = Some d" using mkdir_exists [of f seg] by auto
  then have r: "read_dir f seg = d"
    using read_dir_mkdir [of f seg seg] by (simp add: read_dir_def)
  show ?thesis
    using assms d r
    by (auto simp: load_ordered_files_def write_order_def Let_def split: if_splits)
qed

text \<open>
  For names that are pairwise different and each clean, writing them as the order of
  a window and then loading the playlist returns the names that are \<^verbatim>\<open>*.mp4\<close>
  entries of the directory, in the order given, followed by the other \<^verbatim>\<open>*.mp4\<close>
  entries in lexicographic order.
\<close>

lemma round_trip_clean:
  assumes "distinct names" and "\<forall>n\<in>set names. clean_name n"
    and "write_order f seg names = (None, f1)"
    and "load_ordered_files f1 seg = (Inr plist, f2)"
  shows "map snd plist = spec_round_trip f seg names"
proof -
  obtain d where d: "f seg = Some d"
    using assms(3) by (cases "f seg") (auto simp: write_order_def)
  then have f1: "f1 = f(seg \<mapsto> d\<lparr>order_txt := Some (order_text names)\<rparr>)"
    using assms(3) by (auto simp: write_order_def split: if_splits)
  have "map snd plist = ordered_names (read_dir f1 seg)"
    using load_ordered_files_Inr [OF assms(4)] by (simp add: comp_def)
  also have "\<dots> = ordered_names (d\<lparr>order_txt := Some (order_text names)\<rparr>)"
    by (simp add: f1 read_dir_def)
  also have "\<dots> = spec_round_trip f seg names"
    using ordered_names_written [OF assms(1,2), of d] d
    by (simp add: spec_round_trip_def read_dir_def Let_def)
  finally show ?thesis .
qed

text \<open>
  Claim C5. For the directory with the files \<open> a.mp4\<close> (the name starts with a
  space) and \<open>b.mp4\<close>, writing the order \<open> a.mp4\<close>, \<open>b.mp4\<close> succeeds, and loading
  the playlist then returns \<open>b.mp4\<close>, \<open> a.mp4\<close>: the first line is read back
  without its space, is then no file of the directory, and the file moves behind
  the names that were found. Both names exist, so the round trip of the
  specification is the order that was written.
\<close>

theorem set_order_reorder_lost:
  "fst (write_order spaced_fs (540, 600) [py '' a.mp4'', py ''b.mp4'']) = None
   \<and> fst (load_ordered_files
        (snd (write_order spaced_fs (540, 600) [py '' a.mp4'', py ''b.mp4''])) (540, 600))
     = Inr [((540, 600), py ''b.mp4''), ((540, 600), py '' a.mp4'')]
   \<and> spec_round_trip spaced_fs (540, 600) [py '' a.mp4'', py ''b.mp4'']
     = [py '' a.mp4'', py ''b.mp4'']"
  by (simp add: spaced_fs_def order_eval)

section \<open>Loading twice\<close>

text \<open>
  Claim C6. Loading the playlist twice with nothing changed in between gives two
  different lists for the directory with the files \<open> a.mp4\<close> (the name starts with a
  space) and \<open>b.mp4\<close>: the first call returns and writes \<open> a.mp4\<close>, \<open>b.mp4\<close>; the
  second reads the first line back stripped, finds no such file and returns
  \<open>b.mp4\<close>, \<open> a.mp4\<close>.
\<close>

theorem resolve_twice_differs:
  "fst (load_ordered_files spaced_fs (540, 600))
     = Inr [((540, 600), py '' a.mp4''), ((540, 600), py ''b.mp4'')]
   \<and> fst (load_ordered_files (snd (load_ordered_files spaced_fs (540, 600))) (540, 600))
     = Inr [((540, 600), py ''b.mp4''), ((540, 600), py '' a.mp4'')]"
  by (simp add: spaced_fs_def order_eval)

lemma ordered_names_complete:
  "set (ordered_names d) = set (glob_mp4 d) \<and> distinct (ordered_names d)"
proof -
  let ?names = "case order_txt d of None \<Rightarrow> [] | Some t \<Rightarrow> read_names t"
  obtain ordered rest where t: "take_ordered ?names (glob_mp4 d) = (ordered, rest)"
    by (cases "take_ordered ?names (glob_mp4 d)") auto
  have "distinct (glob_mp4 d)" by (simp add: glob_mp4_def)
  then have "set ordered \<union> set rest = set (glob_mp4 d) \<and> set ordered \<inter> set rest = {}
       \<and> distinct ordered \<and> distinct rest"
    using take_ordered_sets [OF t] by simp
  moreover have "ordered_names d = ordered @ sort rest"
    using t by (simp add: ordered_names_def)
  ultimately show ?thesis by auto
qed

text \<open>
  When every \<^verbatim>\<open>*.mp4\<close> name of the directory is clean and the first call returns a
  playlist, the second call returns the same playlist.
\<close>

lemma resolve_idempotent_clean:
  assumes "\<forall>n\<in>set (glob_mp4 (read_dir f seg)). clean_name n"
    and "load_ordered_files f seg = (Inr plist, f')"
  shows "fst (load_ordered_files f' seg) = Inr plist"
proof -
  let ?d = "read_dir f seg"
  let ?o = "ordered_names ?d"
  have c: "set ?o = set (glob_mp4 ?d)" "distinct ?o"
    using ordered_names_complete [of ?d] by simp_all
  then have cl: "\<forall>n\<in>set ?o. clean_name n" using assms(1) by simp
  have "ordered_names (?d\<lparr>order_txt := Some (order_text ?o)\<rparr>)
      = filter (\<lambda>n. n \<in> set (glob_mp4 ?d)) ?o @ sort (filter (\<lambda>n. n \<notin> set ?o) (glob_mp4 ?d))"
    by (rule ordered_names_written [OF c(2) cl])
  also have "\<dots> = ?o" using c(1) by simp
  finally have w: "ordered_names (?d\<lparr>order_txt := Some (order_text ?o)\<rparr>) = ?o" .
  note l = load_ordered_files_Inr [OF assms(2)]
  have f': "f' seg = Some (?d\<lparr>order_txt := Some (order_text ?o)\<rparr>)"
    using l by simp
  then have r: "read_dir f' seg = ?d\<lparr>order_txt := Some (order_text ?o)\<rparr>"
    by (simp add: read_dir_def)
  have m: "mkdir f' seg = f'" using f' by (rule mkdir_Some)
  show ?thesis
    using l w f' r m
    by (simp add: load_ordered_files_def write_order_def Let_def)
qed

section \<open>Playable content\<close>

lemma endswith_iff: "endswith s suffix = (\<exists>stem. s = stem @ suffix)"
proof
  assume e: "endswith s suffix"
  then have "s = take (length s - length suffix) s @ suffix"
    by (metis append_take_drop_id endswith_def)
  then show "\<exists>stem. s = stem @ suffix" by blast
next
  assume "\<exists>stem. s = stem @ suffix"
  then show "endswith s suffix" by (auto simp: endswith_def)
qed

lemma is_mp4_iff: "is_mp4 n = (\<exists>stem. n = stem @ py ''.mp4'')"
  unfolding is_mp4_def by (rule endswith_iff)

lemma entries_write_order [simp]:
  "entries (read_dir (snd (write_order f seg names)) seg') = entries (read_dir f seg')"
  by (simp add: read_dir_def write_order_def split: option.splits)

lemma entries_load [simp]:
  "entries (read_dir (snd (load_ordered_files f seg)) seg') = entries (read_dir f seg')"
proof -
  have "snd (load_ordered_files f seg)
      = snd (write_order (mkdir f seg) seg (ordered_names (read_dir f seg)))"
    by (simp add: load_ordered_files_def Let_def split: prod.splits option.splits)
  then show ?thesis by simp
qed

lemma entries_copy_in_mono: "set (entries d) \<subseteq> set (entries (copy_in src d))"
  by (auto simp: copy_in_def)

lemma entries_fold_copy_in_mono: "set (entries d) \<subseteq> set (entries (fold copy_in srcs d))"
proof (induction srcs arbitrary: d)
  case Nil
  then show ?case by simp
next
  case (Cons a srcs)
  show ?case using entries_copy_in_mono [of d a] Cons [of "copy_in a d"] by auto
qed

lemma entries_fold_copy_in:
  "src \<in> set srcs \<Longrightarrow> fst src \<noteq> ORDER_FILE \<Longrightarrow> fst src \<in> set (entries (fold copy_in srcs d))"
proof (induction srcs arbitrary: d)
  case Nil
  then show ?case by simp
next
  case (Cons a srcs)
  show ?case
  proof (cases "src = a")
    case True
    then have "fst src \<in> set (entries (copy_in a d))"
      using Cons.prems by (auto simp: copy_in_def)
    then show ?thesis using entries_fold_copy_in_mono [of "copy_in a d" srcs] by auto
  next
    case False
    then show ?thesis using Cons by simp
  qed
qed

lemma add_video_entries:
  assumes "selected_segment st idx = Some seg" and "fs st seg = Some d" and "srcs \<noteq> []"
  shows "entries (read_dir (fs (snd (add_video st idx srcs))) seg) = entries (fold copy_in srcs d)"
proof -
  let ?f1 = "(fs st)(seg \<mapsto> fold copy_in srcs d)"
  obtain res f2 where l: "load_ordered_files ?f1 seg = (res, f2)"
    by (cases "load_ordered_files ?f1 seg") auto
  have e: "entries (read_dir f2 seg) = entries (fold copy_in srcs d)"
    using entries_load [of ?f1 seg seg] l by (simp add: read_dir_def)
  have s: "selected_segment (st\<lparr>fs := g\<rparr>) idx = Some seg" for g
    using assms(1) by (simp add: selected_segment_def split: if_splits)
  show ?thesis
  proof (cases res)
    case (Inl err)
    then show ?thesis using assms l e by (simp add: add_video_def)
  next
    case (Inr pl)
    then show ?thesis using assms l e s
      by (simp add: add_video_def refresh_playlist_view_def)
  qed
qed

text \<open>
  Claim C10. Every path of a playlist that \<^verbatim>\<open>load_ordered_files\<close> returns has a
  name ending in \<open>.mp4\<close>. \<^verbatim>\<open>any_segment_has_video\<close> holds exactly when the directory
  of some window has an entry whose name ends in \<open>.mp4\<close>. \<^verbatim>\<open>add_video\<close> copies a
  chosen file whatever its extension: a file whose name does not end in \<open>.mp4\<close> is in
  the directory afterwards and is in no playlist loaded from it.
\<close>

theorem only_mp4_is_playable:
  "(\<forall>plist. fst (load_ordered_files f w) = Inr plist
        \<longrightarrow> (\<forall>p\<in>set plist. \<exists>stem. snd p = stem @ py ''.mp4''))
   \<and> (any_segment_has_video ranges f
        \<longleftrightarrow> (\<exists>w\<in>set ranges. \<exists>n\<in>set (entries (read_dir f w)). \<exists>stem. n = stem @ py ''.mp4''))
   \<and> (selected_segment st idx = Some seg \<and> fs st seg \<noteq> None \<and> (name, content) \<in> set srcs
        \<and> name \<noteq> ORDER_FILE \<and> \<not> (\<exists>stem. name = stem @ py ''.mp4'')
        \<longrightarrow> name \<in> set (entries (read_dir (fs (snd (add_video st idx srcs))) seg))
            \<and> (\<forall>plist. fst (load_ordered_files (fs (snd (add_video st idx srcs))) seg) = Inr plist
                  \<longrightarrow> (seg, name) \<notin> set plist))"
proof (intro conjI)
  have m: "\<forall>p\<in>set plist. is_mp4 (snd p)" if h: "fst (load_ordered_files g v) = Inr plist"
    for g v plist
  proof
    fix p assume p: "p \<in> set plist"
    obtain g' where "load_ordered_files g v = (Inr plist, g')"
      using h by (cases "load_ordered_files g v") auto
    then have "plist = map (\<lambda>n. (v, n)) (ordered_names (read_dir g v))"
      using load_ordered_files_Inr by blast
    then have "snd p \<in> set (ordered_names (read_dir g v))" using p by auto
    then have "snd p \<in> set (glob_mp4 (read_dir g v))"
      using ordered_names_complete [of "read_dir g v"] by simp
    then show "is_mp4 (snd p)" by (simp add: glob_mp4_def)
  qed
  show "\<forall>plist. fst (load_ordered_files f w) = Inr plist
        \<longrightarrow> (\<forall>p\<in>set plist. \<exists>stem. snd p = stem @ py ''.mp4'')"
    using m [of f w] is_mp4_iff by blast
  show "any_segment_has_video ranges f
        \<longleftrightarrow> (\<exists>w\<in>set ranges. \<exists>n\<in>set (entries (read_dir f w)). \<exists>stem. n = stem @ py ''.mp4'')"
    by (auto simp: any_segment_has_video_def dir_has_mp4_def list_ex_iff is_mp4_iff)
  show "selected_segment st idx = Some seg \<and> fs st seg \<noteq> None \<and> (name, content) \<in> set srcs
        \<and> name \<noteq> ORDER_FILE \<and> \<not> (\<exists>stem. name = stem @ py ''.mp4'')
        \<longrightarrow> name \<in> set (entries (read_dir (fs (snd (add_video st idx srcs))) seg))
            \<and> (\<forall>plist. fst (load_ordered_files (fs (snd (add_video st idx srcs))) seg) = Inr plist
                  \<longrightarrow> (seg, name) \<notin> set plist)"
  proof (intro impI, elim conjE)
    assume a: "selected_segment st idx = Some seg" "fs st seg \<noteq> None"
      "(name, content) \<in> set srcs" "name \<noteq> ORDER_FILE" "\<not> (\<exists>stem. name = stem @ py ''.mp4'')"
    obtain d where d: "fs st seg = Some d" using a(2) by auto
    have ne: "srcs \<noteq> []" using a(3) by auto
    have "fst (name, content) \<in> set (entries (fold copy_in srcs d))"
      using a(3,4) by (intro entries_fold_copy_in) simp_all
    then have 1: "name \<in> set (entries (read_dir (fs (snd (add_video st idx srcs))) seg))"
      by (simp add: add_video_entries [OF a(1) d ne])
    have n: "\<not> is_mp4 name" using a(5) is_mp4_iff by blast
    have 2: "\<forall>plist. fst (load_ordered_files (fs (snd (add_video st idx srcs))) seg) = Inr plist
        \<longrightarrow> (seg, name) \<notin> set plist"
    proof (intro allI impI)
      fix plist
      assume "fst (load_ordered_files (fs (snd (add_video st idx srcs))) seg) = Inr plist"
      then have "\<forall>p\<in>set plist. is_mp4 (snd p)" by (rule m)
      then show "(seg, name) \<notin> set plist" using n by force
    qed
    show "name \<in> set (entries (read_dir (fs (snd (add_video st idx srcs))) seg))
            \<and> (\<forall>plist. fst (load_ordered_files (fs (snd (add_video st idx srcs))) seg) = Inr plist
                  \<longrightarrow> (seg, name) \<notin> set plist)"
      using 1 2 by simp
  qed
qed

theorem only_mp4_is_playable_witness:
  "selected_segment example_start 0 = Some (540, 600)
   \<and> fs example_start (540, 600) \<noteq> None
   \<and> py ''x.mkv'' \<noteq> ORDER_FILE
   \<and> \<not> (\<exists>stem. py ''x.mkv'' = stem @ py ''.mp4'')
   \<and> py ''x.mkv'' \<in> set (entries (read_dir
         (fs (snd (add_video example_start 0 [(py ''x.mkv'', [])]))) (540, 600)))
   \<and> fst (load_ordered_files
         (fs (snd (add_video example_start 0 [(py ''x.mkv'', [])]))) (540, 600))
       = Inr example_playlist
   \<and> ((540, 600), py ''x.mkv'') \<notin> set example_playlist
   \<and> fst (load_ordered_files example_fs (540, 600)) = Inr example_playlist
   \<and> any_segment_has_video [(540, 600), (600, 660)] example_fs"
proof -
  have s: "selected_segment example_start 0 = Some (540, 600)"
    by (simp add: example_start_eq selected_segment_def)
  have f: "fs example_start (540, 600) \<noteq> None"
    by (simp add: example_start_eq example_fs'_def)
  have o: "py ''x.mkv'' \<noteq> ORDER_FILE" by (simp add: ORDER_FILE_def)
  have "\<not> is_mp4 (py ''x.mkv'')" by (simp add: is_mp4_def endswith_def)
  then have x: "\<not> (\<exists>stem. py ''x.mkv'' = stem @ py ''.mp4'')"
    using is_mp4_iff by blast
  have m: "(py ''x.mkv'', []) \<in> set [(py ''x.mkv'', [])]" by simp
  have p: "fst (load_ordered_files example_fs (540, 600)) = Inr example_playlist"
    by (simp add: example_fs_def example_playlist_def order_eval)
  have q: "fst (load_ordered_files
         (fs (snd (add_video example_start 0 [(py ''x.mkv'', [])]))) (540, 600))
       = Inr example_playlist"
    by (simp add: example_start_eq example_playlist_def)
      (simp add: example_fs'_def example_order_def add_video_def selected_segment_def
        copy_in_def ORDER_FILE_def refresh_playlist_view_def order_eval)
  have e: "\<exists>w\<in>set [(540, 600), (600, 660)]. \<exists>n\<in>set (entries (read_dir example_fs w)).
      \<exists>stem. n = stem @ py ''.mp4''"
  proof -
    have "py ''a.mp4'' \<in> set (entries (read_dir example_fs (540, 600)))"
      by (simp add: example_fs_def read_dir_def)
    moreover have "py ''a.mp4'' = py ''a'' @ py ''.mp4''" by simp
    ultimately show ?thesis by (metis list.set_intros(1))
  qed
  note t = only_mp4_is_playable [of example_fs "(540, 600)" "[(540, 600), (600, 660)]"
      example_start 0 "(540, 600)" "py ''x.mkv''" "[]" "[(py ''x.mkv'', [])]"]
  show ?thesis using s f o x m p q e t by blast
qed

end
